theory Spec2Isabelle
  imports Complex_Main
begin

section \<open>Numbers and the random source\<close>

text \<open>
  The simulator of \<^verbatim>\<open>src/App.jsx\<close> computes with JavaScript numbers, which are IEEE 754
  binary64 values. The development has two layers.

  The first layer follows the data model of the specification, which speaks of real numbers:
  every JavaScript number is a \<^typ>\<open>real\<close> and no operation rounds. The state machine of the
  game and the properties that do not depend on the last bits of a number (which branch a
  handler takes, which fields it writes, what the reachable states have in common) are stated
  on this layer. The two places where the source would leave the numbers are written out as
  errors: reading the last element of an empty price series (\<^verbatim>\<open>undefined\<close>, which turns every
  product into \<^verbatim>\<open>NaN\<close>) and dividing by a zero price.

  The second layer follows the arithmetic of the source to the bit: every operator rounds to
  the nearest double, ties to even, and a result beyond the largest double is an error of its
  own. Whatever the specification states as an exact equality or a strict inequality between
  computed numbers (the price step, the moving average, the cash moved by a trade) is stated
  and proved on the second layer.

  \<^verbatim>\<open>Math.random()\<close> is ambient in the source. Here every draw is an explicit argument, a
  number \<open>r\<close> with \<open>0 \<le> r < 1\<close>; a loop that draws several times receives a function from
  the position of the draw to its value.
\<close>

datatype error = NotANumber | Infinite

definition random_draw :: "real \<Rightarrow> bool" where
  "random_draw r = (0 \<le> r \<and> r < 1)"

section \<open>Binary64 arithmetic\<close>

text \<open>
  A finite double is a real \<open>n \<times> 2\<^bsup>e - 52\<^esup>\<close> with an integer \<open>\<bar>n\<bar> < 2\<^sup>5\<^sup>3\<close> and
  \<open>-1022 \<le> e \<le> 1023\<close>. \<open>binade x\<close> is the exponent \<open>e\<close> of the binade of \<open>x\<close>, that is
  \<open>\<lfloor>log\<^sub>2 \<bar>x\<bar>\<rfloor>\<close>, but never below \<open>-1022\<close>, where the subnormal numbers begin; \<open>ulp x\<close> is
  the distance \<open>2\<^bsup>e - 52\<^esup>\<close> between neighbouring doubles of that binade; \<open>fl x\<close> is the
  multiple of \<open>ulp x\<close> nearest to \<open>x\<close>, the even one of the two when \<open>x\<close> lies half-way. This is
  rounding to nearest, ties to even, which every arithmetic operator of JavaScript applies to
  its exact result. The two zeros of IEEE 754 are one number here.
\<close>

definition round_even :: "real \<Rightarrow> int" where
  "round_even y = (if y - of_int \<lfloor>y\<rfloor> < 1 / 2 then \<lfloor>y\<rfloor>
     else if 1 / 2 < y - of_int \<lfloor>y\<rfloor> then \<lfloor>y\<rfloor> + 1
     else if even \<lfloor>y\<rfloor> then \<lfloor>y\<rfloor> else \<lfloor>y\<rfloor> + 1)"

definition binade :: "real \<Rightarrow> int" where
  "binade x = (if x = 0 then - 1022 else max \<lfloor>log 2 \<bar>x\<bar>\<rfloor> (- 1022))"

definition ulp :: "real \<Rightarrow> real" where
  "ulp x = 2 powi (binade x - 52)"

definition fl :: "real \<Rightarrow> real" where
  "fl x = of_int (round_even (x / ulp x)) * ulp x"

definition is_double :: "real \<Rightarrow> bool" where
  "is_double x = (fl x = x \<and> \<bar>x\<bar> < 2 ^ 1024)"

text \<open>
  A rounded result of magnitude \<open>2\<^sup>1\<^sup>0\<^sup>2\<^sup>4\<close> or more is \<^verbatim>\<open>Infinity\<close> in the source; \<open>js_num\<close>
  returns the error \<open>Infinite\<close> for it. An operator with an error for an operand returns
  that error: the model follows a computation up to its first value that is not a finite
  number and not beyond. A division by zero is \<^verbatim>\<open>NaN\<close> for \<open>0 / 0\<close> and an infinity for
  every other dividend.
\<close>

definition js_num :: "real \<Rightarrow> error + real" where
  "js_num y = (if \<bar>fl y\<bar> < 2 ^ 1024 then Inr (fl y) else Inl Infinite)"

definition js_add :: "error + real \<Rightarrow> error + real \<Rightarrow> error + real" where
  "js_add a b =
     (case a of Inl err \<Rightarrow> Inl err
      | Inr x \<Rightarrow> (case b of Inl err \<Rightarrow> Inl err | Inr y \<Rightarrow> js_num (x + y)))"

definition js_sub :: "error + real \<Rightarrow> error + real \<Rightarrow> error + real" where
  "js_sub a b =
     (case a of Inl err \<Rightarrow> Inl err
      | Inr x \<Rightarrow> (case b of Inl err \<Rightarrow> Inl err | Inr y \<Rightarrow> js_num (x - y)))"

definition js_mul :: "error + real \<Rightarrow> error + real \<Rightarrow> error + real" where
  "js_mul a b =
     (case a of Inl err \<Rightarrow> Inl err
      | Inr x \<Rightarrow> (case b of Inl err \<Rightarrow> Inl err | Inr y \<Rightarrow> js_num (x * y)))"

definition js_div :: "error + real \<Rightarrow> error + real \<Rightarrow> error + real" where
  "js_div a b =
     (case a of Inl err \<Rightarrow> Inl err
      | Inr x \<Rightarrow>
          (case b of Inl err \<Rightarrow> Inl err
           | Inr y \<Rightarrow>
               if y = 0 then (if x = 0 then Inl NotANumber else Inl Infinite)
               else js_num (x / y)))"

text \<open>
  ECMAScript leaves the accuracy of \<^verbatim>\<open>Math.exp\<close> and of the operator \<^verbatim>\<open>**\<close> to the engine.
  The model takes the two functions the engine computes as a parameter, a record \<open>engine\<close>
  of real functions; their values are rounded to doubles, which changes nothing when they
  are doubles already. \<open>exact_engine\<close> is the engine whose results are correctly rounded.
  \<^verbatim>\<open>Math.sqrt\<close> is the correctly rounded square root that IEEE 754 prescribes; the source
  applies it to the constant \<open>1\<close> only.
\<close>

record engine =
  engine_exp :: "real \<Rightarrow> real"
  engine_pow :: "real \<Rightarrow> nat \<Rightarrow> real"

definition exact_engine :: engine where
  "exact_engine = \<lparr>engine_exp = exp, engine_pow = (\<lambda>x n. x ^ n)\<rparr>"

definition js_pow :: "engine \<Rightarrow> error + real \<Rightarrow> nat \<Rightarrow> error + real" where
  "js_pow eng a n = (case a of Inl err \<Rightarrow> Inl err | Inr x \<Rightarrow> js_num (engine_pow eng x n))"

definition Math_sqrt :: "error + real \<Rightarrow> error + real" where
  "Math_sqrt a = (case a of Inl err \<Rightarrow> Inl err
     | Inr x \<Rightarrow> if x < 0 then Inl NotANumber else js_num (sqrt x))"


section \<open>Price process\<close>

text \<open>
  \<^verbatim>\<open>
  function generatePrice(prev, mu, sigma) {
    const dt = 1;
    const epsilon = Math.random() * 2 - 1; // ~U(-1,1)
    return prev * Math.exp((mu - 0.5 * sigma ** 2) * dt + sigma * Math.sqrt(dt) * epsilon);
  }
  \<close>
  On the first layer, in exact arithmetic:
\<close>

definition generatePrice :: "real \<Rightarrow> real \<Rightarrow> real \<Rightarrow> real \<Rightarrow> real" where
  "generatePrice prev mu sigma r =
     (let dt = 1;
          epsilon = r * 2 - 1
      in prev * exp ((mu - 0.5 * sigma ^ 2) * dt + sigma * sqrt dt * epsilon))"




text \<open>
  \<^verbatim>\<open>
  function generateInitialPrices(len, start, mu, sigma) {
    const arr = [start];
    for (let i = 1; i < len; i++) arr.push(generatePrice(arr[i - 1], mu, sigma));
    return arr;
  }
  \<close>
  Iteration \<open>i\<close> makes the draw number \<open>i - 1\<close>.
\<close>

function generateInitialPrices_loop ::
  "nat \<Rightarrow> real \<Rightarrow> real \<Rightarrow> (nat \<Rightarrow> real) \<Rightarrow> nat \<Rightarrow> real list \<Rightarrow> real list" where
  "generateInitialPrices_loop len mu sigma rnd i arr =
     (if i < len
      then generateInitialPrices_loop len mu sigma rnd (i + 1)
             (arr @ [generatePrice (arr ! (i - 1)) mu sigma (rnd (i - 1))])
      else arr)"
  by pat_completeness auto
termination
  by (relation "measure (\<lambda>(len, mu, sigma, rnd, i, arr). len - i)") auto

declare generateInitialPrices_loop.simps [simp del]

definition generateInitialPrices ::
  "nat \<Rightarrow> real \<Rightarrow> real \<Rightarrow> real \<Rightarrow> (nat \<Rightarrow> real) \<Rightarrow> real list" where
  "generateInitialPrices len start mu sigma rnd =
     generateInitialPrices_loop len mu sigma rnd 1 [start]"

section \<open>Indicators\<close>

text \<open>
  \<^verbatim>\<open>
  function sma(data, window) {
    if (data.length < window) return [];
    const out = [];
    let sum = 0;
    for (let i = 0; i < data.length; i++) {
      sum += data[i];
      if (i >= window) sum -= data[i - window];
      if (i >= window - 1) out.push(sum / window);
    }
    return out;
  }
  \<close>
  The loop is modelled on the second layer: \<^verbatim>\<open>+=\<close>, \<^verbatim>\<open>-=\<close> and \<^verbatim>\<open>/\<close> round. The elements of
  the result are values of \<open>js_div\<close>, so the list has the length the source gives it also
  when a sum has overflowed. The window is a natural number. For \<open>window = 0\<close> the test
  \<^verbatim>\<open>i >= window - 1\<close> is true in the source (\<open>i \<ge> -1\<close>) and in the model (\<open>0 \<le> i\<close>), and the
  quotient \<open>sum / 0\<close> is an error.
\<close>

function sma_loop ::
  "real list \<Rightarrow> nat \<Rightarrow> nat \<Rightarrow> error + real \<Rightarrow> (error + real) list \<Rightarrow> (error + real) list" where
  "sma_loop data window i sm out =
     (if i < length data then
        (let sm1 = js_add sm (Inr (data ! i));
             sm2 = (if window \<le> i then js_sub sm1 (Inr (data ! (i - window))) else sm1);
             out2 = (if window - 1 \<le> i then out @ [js_div sm2 (Inr (real window))] else out)
         in sma_loop data window (i + 1) sm2 out2)
      else out)"
  by pat_completeness auto
termination
  by (relation "measure (\<lambda>(data, window, i, sm, out). length data - i)") auto

declare sma_loop.simps [simp del]

definition sma :: "real list \<Rightarrow> nat \<Rightarrow> (error + real) list" where
  "sma data window = (if length data < window then [] else sma_loop data window 0 (Inr 0) [])"

text \<open>The variable \<^verbatim>\<open>sum\<close> of the loop after \<open>i\<close> iterations.\<close>

primrec sma_sum :: "real list \<Rightarrow> nat \<Rightarrow> nat \<Rightarrow> error + real" where
  "sma_sum data w 0 = Inr 0"
| "sma_sum data w (Suc i) =
     (if w \<le> i then js_sub (js_add (sma_sum data w i) (Inr (data ! i))) (Inr (data ! (i - w)))
      else js_add (sma_sum data w i) (Inr (data ! i)))"

text \<open>
  What the specification compares with: \<open>window_mean data w i\<close> is the arithmetic mean of the
  elements \<open>i, \<dots>, i + w - 1\<close>, a real number, summed from scratch and not rounded.
  \<open>running_sum data w i\<close> is the exact sum of the last \<open>min i w\<close> elements before \<open>i\<close>.
\<close>

definition window_mean :: "real list \<Rightarrow> nat \<Rightarrow> nat \<Rightarrow> real" where
  "window_mean data w i = sum_list (take w (drop i data)) / real w"

definition running_sum :: "real list \<Rightarrow> nat \<Rightarrow> nat \<Rightarrow> real" where
  "running_sum data w i = (\<Sum>k = i - w ..< i. data ! k)"

text \<open>
  Series all of whose elements are integer multiples of one power of two: \<open>on_grid k ms\<close>
  has the elements \<open>m \<times> 2\<^sup>k\<close> for \<open>m\<close> in \<open>ms\<close>.
\<close>

definition on_grid :: "int \<Rightarrow> int list \<Rightarrow> real list" where
  "on_grid k ms = map (\<lambda>m. of_int m * 2 powi k) ms"

section \<open>Candles\<close>

text \<open>
  \<^verbatim>\<open>
  function buildCandles(prices, group = 5) {
    const candles = [];
    for (let i = 0; i < prices.length; i += group) {
      const slice = prices.slice(i, i + group);
      if (!slice.length) break;
      const o = slice[0];
      const c = slice[slice.length - 1];
      const h = Math.max(...slice);
      const l = Math.min(...slice);
      candles.push({ x: i, o, h, l, c });
    }
    return candles;
  }
  \<close>
  The fields \<open>x, o, h, l, c\<close> of a candle are \<open>candle_x, \<dots>, candle_c\<close>. \<open>slice xs a b\<close> is
  \<^verbatim>\<open>xs.slice(a, b)\<close> for indices \<open>0 \<le> a \<le> b\<close>. The empty slice is the \<^verbatim>\<open>break\<close>; on a slice
  \<open>v # vs\<close> (the parameter \<open>group\<close> is \<open>grp\<close> here) the maximum and the minimum are folds over its elements.
\<close>

record candle =
  candle_x :: nat
  candle_o :: real
  candle_h :: real
  candle_l :: real
  candle_c :: real

definition slice :: "'a list \<Rightarrow> nat \<Rightarrow> nat \<Rightarrow> 'a list" where
  "slice xs a b = take (b - a) (drop a xs)"

function buildCandles_loop :: "real list \<Rightarrow> nat \<Rightarrow> nat \<Rightarrow> candle list \<Rightarrow> candle list" where
  "buildCandles_loop ps grp i candles =
     (if i < length ps then
        (case slice ps i (i + grp) of
           [] \<Rightarrow> candles
         | v # vs \<Rightarrow>
             buildCandles_loop ps grp (i + grp)
               (candles @ [\<lparr>candle_x = i, candle_o = v, candle_h = fold max vs v,
                            candle_l = fold min vs v, candle_c = last (v # vs)\<rparr>]))
      else candles)"
  by pat_completeness auto
termination
proof (relation "measure (\<lambda>(ps, grp, i, candles). length ps - i)")
  fix ps :: "real list" and grp i :: nat and candles :: "candle list" and v vs
  assume "i < length ps" and "slice ps i (i + grp) = v # vs"
  then have "0 < grp"
    by (cases grp) (simp_all add: slice_def)
  with \<open>i < length ps\<close>
  show "((ps, grp, i + grp, candles @ [\<lparr>candle_x = i, candle_o = v, candle_h = fold max vs v,
            candle_l = fold min vs v, candle_c = last (v # vs)\<rparr>]), (ps, grp, i, candles))
          \<in> measure (\<lambda>(ps, grp, i, candles). length ps - i)"
    by simp
qed simp

declare buildCandles_loop.simps [simp del]

definition buildCandles :: "real list \<Rightarrow> nat \<Rightarrow> candle list" where
  "buildCandles ps grp = buildCandles_loop ps grp 0 []"

text \<open>
  The words of the specification: run \<open>k\<close> of a series cut into runs of \<open>b\<close> ticks, the
  number of runs, and the candle that summarises a run starting at a given offset.
\<close>

definition run :: "real list \<Rightarrow> nat \<Rightarrow> nat \<Rightarrow> real list" where
  "run ps b k = take b (drop (k * b) ps)"

definition run_count :: "real list \<Rightarrow> nat \<Rightarrow> nat" where
  "run_count ps b = (length ps + b - 1) div b"

definition candle_of_run :: "nat \<Rightarrow> real list \<Rightarrow> candle" where
  "candle_of_run offset r =
     \<lparr>candle_x = offset, candle_o = hd r, candle_h = Max (set r),
      candle_l = Min (set r), candle_c = last r\<rparr>"

section \<open>Shop catalogue\<close>

text \<open>
  Of a shop item the handlers read \<^verbatim>\<open>id\<close>, \<^verbatim>\<open>price\<close> and \<^verbatim>\<open>type\<close>; labels, colours and
  icon styles are presentation. \<^verbatim>\<open>SHOP_ITEMS\<close> lists the themes and chart models that cost
  something, and all indicators.
\<close>

record item =
  item_id :: string
  item_price :: real
  item_type :: string

definition THEMES :: "item list" where
  "THEMES =
     [\<lparr>item_id = ''dark-default'', item_price = 0, item_type = ''theme''\<rparr>,
      \<lparr>item_id = ''dark-purple'', item_price = 5, item_type = ''theme''\<rparr>,
      \<lparr>item_id = ''dark-green'', item_price = 5, item_type = ''theme''\<rparr>,
      \<lparr>item_id = ''light-moss'', item_price = 5, item_type = ''theme''\<rparr>]"

definition CHART_MODELS :: "item list" where
  "CHART_MODELS =
     [\<lparr>item_id = ''line'', item_price = 0, item_type = ''chart''\<rparr>,
      \<lparr>item_id = ''candle'', item_price = 25, item_type = ''chart''\<rparr>]"

definition STATS_ITEMS :: "item list" where
  "STATS_ITEMS =
     [\<lparr>item_id = ''sma_short'', item_price = 5, item_type = ''stat''\<rparr>,
      \<lparr>item_id = ''ema_mid'', item_price = 5, item_type = ''stat''\<rparr>,
      \<lparr>item_id = ''sma_long'', item_price = 5, item_type = ''stat''\<rparr>]"

definition SHOP_ITEMS :: "item list" where
  "SHOP_ITEMS =
     filter (\<lambda>t. item_price t > 0) THEMES @ filter (\<lambda>c. item_price c > 0) CHART_MODELS
       @ STATS_ITEMS"

section \<open>Game state\<close>

text \<open>
  One field for each \<^verbatim>\<open>useState\<close> cell of \<^verbatim>\<open>App\<close> that a handler or an effect reads. The
  cell \<^verbatim>\<open>floatingTexts\<close> is left out: it holds self-expiring labels that are pushed only
  inside the two successful trade branches and that nothing but the renderer reads.
  A state update \<^verbatim>\<open>setX(f)\<close> is the record update of field \<open>X\<close>; the updates of one handler
  are applied together, as React batches them.
\<close>

record state =
  prices :: "real list"
  balance :: real
  portfolio :: real
  timeLeft :: int
  mu :: real
  sigma :: real
  running :: bool
  finished :: bool
  initialClick :: bool
  purchasePercent :: real
  showSettings :: bool
  showShop :: bool
  savedCoins :: real
  unlockedThemes :: "string list"
  selectedThemeId :: string
  unlockedCharts :: "string list"
  selectedChart :: string
  unlockedStats :: "string list"
  enabledStats :: "string list"

definition LINE_INIT :: nat where
  "LINE_INIT = 10"

definition CANDLE_INIT :: nat where
  "CANDLE_INIT = 50"

text \<open>The \<^verbatim>\<open>useState\<close> initialisers (lines 150 to 177 of the source).\<close>

definition initial_state :: "(nat \<Rightarrow> real) \<Rightarrow> state" where
  "initial_state rnd =
     \<lparr>prices = generateInitialPrices LINE_INIT 100 0.001 0.01 rnd,
      balance = 100,
      portfolio = 0,
      timeLeft = 60,
      mu = 0.001,
      sigma = 0.1,
      running = False,
      finished = False,
      initialClick = False,
      purchasePercent = 50,
      showSettings = False,
      showShop = False,
      savedCoins = 0,
      unlockedThemes = [''dark-default''],
      selectedThemeId = ''dark-default'',
      unlockedCharts = [''line''],
      selectedChart = ''line'',
      unlockedStats = [],
      enabledStats = []\<rparr>"

text \<open>
  \<^verbatim>\<open>prices[prices.length - 1]\<close>: \<^verbatim>\<open>undefined\<close> on the empty series, and every product or
  quotient with it is \<^verbatim>\<open>NaN\<close>.
\<close>

definition lastPrice :: "real list \<Rightarrow> error + real" where
  "lastPrice ps = (case ps of [] \<Rightarrow> Inl NotANumber | _ # _ \<Rightarrow> Inr (last ps))"

text \<open>The session phases of the specification, read off the three flags.\<close>

definition is_WaitingToStart :: "state \<Rightarrow> bool" where
  "is_WaitingToStart s = (\<not> initialClick s \<and> \<not> running s \<and> \<not> finished s)"

definition is_Running :: "state \<Rightarrow> bool" where
  "is_Running s = (initialClick s \<and> running s \<and> \<not> finished s)"

definition is_Finished :: "state \<Rightarrow> bool" where
  "is_Finished s = finished s"

subsection \<open>Timers and effects\<close>

text \<open>
  The price interval (lines 185 to 201):
  \<^verbatim>\<open>
  const maxPoints = selectedChart === "candle" ? 300 : 100;
  setPrices(prev => {
    const next = generatePrice(prev[prev.length - 1], mu, sigma);
    const updated = [...prev, next];
    return updated.slice(-maxPoints);
  });
  setMu(m => m + (Math.random() - 0.5) / 500);
  if (Math.random() < 0.3) setSigma(Math.random() / 25);
  \<close>
  The four draws are \<open>r1, \<dots>, r4\<close> in the order of the calls.
\<close>

definition priceTick :: "state \<Rightarrow> real \<Rightarrow> real \<Rightarrow> real \<Rightarrow> real \<Rightarrow> error + state" where
  "priceTick s r1 r2 r3 r4 =
     (let maxPoints = (if selectedChart s = ''candle'' then 300 else 100 :: nat) in
      case lastPrice (prices s) of
        Inl err \<Rightarrow> Inl err
      | Inr prev \<Rightarrow>
          (let next = generatePrice prev (mu s) (sigma s) r1;
               updated = prices s @ [next]
           in Inr (s\<lparr>prices := drop (length updated - maxPoints) updated,
                      mu := mu s + (r2 - 0.5) / 500,
                      sigma := (if r3 < 0.3 then r4 / 25 else sigma s)\<rparr>)))"

text \<open>
  The effect that fills the series when the candle chart is selected (lines 204 to 214):
  \<^verbatim>\<open>
  if (selectedChart === "candle" && prices.length < CANDLE_INIT) {
    setPrices(prev => {
      let p = [...prev];
      while (p.length < CANDLE_INIT) p.push(generatePrice(p[p.length - 1], mu, sigma));
      return p;
    });
  }
  \<close>
\<close>

function candleFill_loop :: "real list \<Rightarrow> real \<Rightarrow> real \<Rightarrow> (nat \<Rightarrow> real) \<Rightarrow> nat \<Rightarrow> real list" where
  "candleFill_loop p d v rnd k =
     (if length p < CANDLE_INIT
      then candleFill_loop (p @ [generatePrice (last p) d v (rnd k)]) d v rnd (k + 1)
      else p)"
  by pat_completeness auto
termination
  by (relation "measure (\<lambda>(p, d, v, rnd, k). CANDLE_INIT - length p)") auto

declare candleFill_loop.simps [simp del]

definition candleFill :: "state \<Rightarrow> (nat \<Rightarrow> real) \<Rightarrow> error + state" where
  "candleFill s rnd =
     (if selectedChart s = ''candle'' \<and> length (prices s) < CANDLE_INIT then
        (case lastPrice (prices s) of
           Inl err \<Rightarrow> Inl err
         | Inr _ \<Rightarrow> Inr (s\<lparr>prices := candleFill_loop (prices s) (mu s) (sigma s) rnd 0\<rparr>))
      else Inr s)"

text \<open>
  The countdown interval exists only while \<^verbatim>\<open>running\<close> (lines 218 to 224):
  \<^verbatim>\<open>setTimeLeft(t => (t > 0 ? t - 1 : 0))\<close>.
\<close>

definition timerTick :: "state \<Rightarrow> state" where
  "timerTick s =
     (if \<not> running s then s
      else s\<lparr>timeLeft := (if timeLeft s > 0 then timeLeft s - 1 else 0)\<rparr>)"

text \<open>
  The effect that ends the game (lines 227 to 239):
  \<^verbatim>\<open>
  if (!running || timeLeft > 0) return;
  const finalPrice = prices[prices.length - 1];
  const earned = portfolio * finalPrice;
  const newBalance = balance + earned;
  const profitPct = (newBalance - 100) / 100;
  if (profitPct > 0) setSavedCoins(c => c + profitPct * 100);
  setBalance(newBalance);
  setPortfolio(0);
  setRunning(false);
  setFinished(true);
  \<close>
\<close>

definition timerFinish :: "state \<Rightarrow> error + state" where
  "timerFinish s =
     (if \<not> running s \<or> timeLeft s > 0 then Inr s
      else
        (case lastPrice (prices s) of
           Inl err \<Rightarrow> Inl err
         | Inr finalPrice \<Rightarrow>
             (let earned = portfolio s * finalPrice;
                  newBalance = balance s + earned;
                  profitPct = (newBalance - 100) / 100
              in Inr (s\<lparr>savedCoins :=
                          (if profitPct > 0 then savedCoins s + profitPct * 100
                           else savedCoins s),
                        balance := newBalance,
                        portfolio := 0,
                        running := False,
                        finished := True\<rparr>))))"

subsection \<open>Clicks on the trading surface\<close>

text \<open>
  Of the mouse event and the bounding rectangle the handler reads \<^verbatim>\<open>e.clientX\<close>,
  \<^verbatim>\<open>bounds.left\<close> and \<^verbatim>\<open>bounds.width\<close> (\<^verbatim>\<open>e.clientY\<close> only places the floating label).
  \<^verbatim>\<open>
  const handleClick = (e) => {
    if (showSettings || showShop || finished) return;
    const clickX = e.clientX - bounds.left;
    const width = bounds.width;
    const price = prices[prices.length - 1];
    if (!initialClick && clickX > width / 2) {
      setInitialClick(true); setRunning(true); setTimeLeft(60);
      return;
    }
    if (!running || !initialClick) return;
    if (clickX > width / 2) {
      if (balance >= 10) {
        const amount = (balance * (purchasePercent / 100)) / price;
        const spent = amount * price;
        setBalance(b => b - spent);
        setPortfolio(p => p + amount);
      }
    } else {
      if (portfolio > 0) {
        const earned = portfolio * price;
        setBalance(b => b + earned);
        setPortfolio(0);
      }
    }
  };
  \<close>
  In the buy branch a zero price makes \<^verbatim>\<open>amount\<close> infinite or \<^verbatim>\<open>NaN\<close> and \<^verbatim>\<open>spent\<close>
  \<^verbatim>\<open>NaN\<close>; both branches multiply with the price, so an empty series gives \<^verbatim>\<open>NaN\<close> too.
  \<open>handleClick\<close> is the handler on the first layer, in exact arithmetic; \<open>handleClick_dbl\<close>
  below is the handler on the second.
\<close>

record click =
  clientX :: real
  bounds_left :: real
  bounds_width :: real

definition buy_side :: "click \<Rightarrow> bool" where
  "buy_side e = (clientX e - bounds_left e > bounds_width e / 2)"

definition handleClick :: "state \<Rightarrow> click \<Rightarrow> error + state" where
  "handleClick s e =
     (if showSettings s \<or> showShop s \<or> finished s then Inr s
      else
        (let clickX = clientX e - bounds_left e;
             width = bounds_width e
         in
           if \<not> initialClick s \<and> clickX > width / 2 then
             Inr (s\<lparr>initialClick := True, running := True, timeLeft := 60\<rparr>)
           else if \<not> running s \<or> \<not> initialClick s then Inr s
           else if clickX > width / 2 then
             (if balance s \<ge> 10 then
                (case lastPrice (prices s) of
                   Inl err \<Rightarrow> Inl err
                 | Inr price \<Rightarrow>
                     if price = 0 then Inl NotANumber
                     else
                       (let amount = (balance s * (purchasePercent s / 100)) / price;
                            spent = amount * price
                        in Inr (s\<lparr>balance := balance s - spent,
                                  portfolio := portfolio s + amount\<rparr>)))
              else Inr s)
           else
             (if portfolio s > 0 then
                (case lastPrice (prices s) of
                   Inl err \<Rightarrow> Inl err
                 | Inr price \<Rightarrow>
                     (let earned = portfolio s * price
                      in Inr (s\<lparr>balance := balance s + earned, portfolio := 0\<rparr>)))
              else Inr s)))"

subsection \<open>Reset\<close>

text \<open>
  \<^verbatim>\<open>
  const resetToHome = () => {
    setBalance(100); setPortfolio(0); setTimeLeft(60);
    setMu(0.001); setSigma(0.01);
    setRunning(false); setFinished(false); setInitialClick(false);
    const initLen = selectedChart === "candle" ? CANDLE_INIT : LINE_INIT;
    setPrices(generateInitialPrices(initLen, 100, 0.001, 0.01));
  };
  \<close>
\<close>

definition resetToHome :: "state \<Rightarrow> (nat \<Rightarrow> real) \<Rightarrow> state" where
  "resetToHome s rnd =
     (let initLen = (if selectedChart s = ''candle'' then CANDLE_INIT else LINE_INIT)
      in s\<lparr>balance := 100,
            portfolio := 0,
            timeLeft := 60,
            mu := 0.001,
            sigma := 0.01,
            running := False,
            finished := False,
            initialClick := False,
            prices := generateInitialPrices initLen 100 0.001 0.01 rnd\<rparr>)"

subsection \<open>Shop and settings\<close>

text \<open>
  \<^verbatim>\<open>
  const handlePurchase = (item) => {
    if (item.type === "theme") {
      if (unlockedThemes.includes(item.id)) return;
      if (savedCoins >= item.price) {
        setSavedCoins(c => c - item.price);
        setUnlockedThemes(arr => [...arr, item.id]);
      }
    } else if (item.type === "chart") { ... unlockedCharts ... }
    else if (item.type === "stat") { ... unlockedStats ... }
  };
  \<close>
\<close>

definition handlePurchase :: "state \<Rightarrow> item \<Rightarrow> state" where
  "handlePurchase s it =
     (if item_type it = ''theme'' then
        (if item_id it \<in> set (unlockedThemes s) then s
         else if savedCoins s \<ge> item_price it then
           s\<lparr>savedCoins := savedCoins s - item_price it,
             unlockedThemes := unlockedThemes s @ [item_id it]\<rparr>
         else s)
      else if item_type it = ''chart'' then
        (if item_id it \<in> set (unlockedCharts s) then s
         else if savedCoins s \<ge> item_price it then
           s\<lparr>savedCoins := savedCoins s - item_price it,
             unlockedCharts := unlockedCharts s @ [item_id it]\<rparr>
         else s)
      else if item_type it = ''stat'' then
        (if item_id it \<in> set (unlockedStats s) then s
         else if savedCoins s \<ge> item_price it then
           s\<lparr>savedCoins := savedCoins s - item_price it,
             unlockedStats := unlockedStats s @ [item_id it]\<rparr>
         else s)
      else s)"

definition applyTheme :: "state \<Rightarrow> string \<Rightarrow> state" where
  "applyTheme s i = (if i \<notin> set (unlockedThemes s) then s else s\<lparr>selectedThemeId := i\<rparr>)"

definition toggleStat :: "state \<Rightarrow> string \<Rightarrow> state" where
  "toggleStat s i =
     (if i \<notin> set (unlockedStats s) then s
      else s\<lparr>enabledStats :=
               (if i \<in> set (enabledStats s) then filter (\<lambda>t. t \<noteq> i) (enabledStats s)
                else enabledStats s @ [i])\<rparr>)"

subsection \<open>Reachable states\<close>

text \<open>
  The states the application can be in: the initial state, and every state reached from
  one by a timer, an effect or a handler. Effects are steps of their own, so they may
  fire at any moment; the real schedule (an effect right after the render that enables
  it) is one of the interleavings. The settings popup offers the charts of
  \<^verbatim>\<open>unlockedCharts\<close> only, and its range input (\<^verbatim>\<open>min="10" max="100" step="10"\<close>) the
  percentages \<open>10, 20, \<dots>, 100\<close>.
\<close>

inductive reachable :: "state \<Rightarrow> bool" where
  r_initial: "\<forall>k. random_draw (rnd k) \<Longrightarrow> reachable (initial_state rnd)"
| r_priceTick:
    "reachable s \<Longrightarrow> random_draw r1 \<Longrightarrow> random_draw r2 \<Longrightarrow> random_draw r3 \<Longrightarrow> random_draw r4
      \<Longrightarrow> priceTick s r1 r2 r3 r4 = Inr s' \<Longrightarrow> reachable s'"
| r_candleFill:
    "reachable s \<Longrightarrow> \<forall>k. random_draw (rnd k) \<Longrightarrow> candleFill s rnd = Inr s' \<Longrightarrow> reachable s'"
| r_timerTick: "reachable s \<Longrightarrow> reachable (timerTick s)"
| r_timerFinish: "reachable s \<Longrightarrow> timerFinish s = Inr s' \<Longrightarrow> reachable s'"
| r_handleClick: "reachable s \<Longrightarrow> handleClick s e = Inr s' \<Longrightarrow> reachable s'"
| r_resetToHome: "reachable s \<Longrightarrow> \<forall>k. random_draw (rnd k) \<Longrightarrow> reachable (resetToHome s rnd)"
| r_handlePurchase: "reachable s \<Longrightarrow> reachable (handlePurchase s it)"
| r_applyTheme: "reachable s \<Longrightarrow> reachable (applyTheme s i)"
| r_toggleStat: "reachable s \<Longrightarrow> reachable (toggleStat s i)"
| r_setSelectedChart:
    "reachable s \<Longrightarrow> i \<in> set (unlockedCharts s) \<Longrightarrow> reachable (s\<lparr>selectedChart := i\<rparr>)"
| r_setShowSettings: "reachable s \<Longrightarrow> reachable (s\<lparr>showSettings := b\<rparr>)"
| r_setShowShop: "reachable s \<Longrightarrow> reachable (s\<lparr>showShop := b\<rparr>)"
| r_setPurchasePercent:
    "reachable s \<Longrightarrow> k \<in> {1 .. 10 :: nat} \<Longrightarrow> reachable (s\<lparr>purchasePercent := 10 * real k\<rparr>)"

subsection \<open>Derived quantities and well-formed states\<close>


text \<open>The test of the shop for an item that is owned already (lines 561 to 564).\<close>

definition owned :: "state \<Rightarrow> item \<Rightarrow> bool" where
  "owned s it =
     ((item_type it = ''theme'' \<and> item_id it \<in> set (unlockedThemes s))
      \<or> (item_type it = ''chart'' \<and> item_id it \<in> set (unlockedCharts s))
      \<or> (item_type it = ''stat'' \<and> item_id it \<in> set (unlockedStats s)))"

text \<open>
  A price series of the data model is non-empty and positive. \<open>state_inv\<close> collects what
  holds in every reachable state.
\<close>

definition positive_prices :: "real list \<Rightarrow> bool" where
  "positive_prices ps = (ps \<noteq> [] \<and> list_all (\<lambda>p. 0 < p) ps)"

definition state_inv :: "state \<Rightarrow> bool" where
  "state_inv s =
     (positive_prices (prices s) \<and> 0 \<le> portfolio s \<and> 0 \<le> balance s
      \<and> 10 \<le> purchasePercent s \<and> purchasePercent s \<le> 100)"

subsection \<open>Concrete inputs\<close>

text \<open>
  Draws that are all \<open>1/2\<close> (a zero shock), a click on the right half and one on the left
  half of a surface of width 400, and a running session with given cash, shares and
  current price.
\<close>

definition mid_draws :: "nat \<Rightarrow> real" where
  "mid_draws k = 1 / 2"

definition right_click :: click where
  "right_click = \<lparr>clientX = 300, bounds_left = 0, bounds_width = 400\<rparr>"

definition left_click :: click where
  "left_click = \<lparr>clientX = 100, bounds_left = 0, bounds_width = 400\<rparr>"

definition trading_state :: "real \<Rightarrow> real \<Rightarrow> real \<Rightarrow> state" where
  "trading_state cash shares price =
     (initial_state mid_draws)
       \<lparr>prices := [price], balance := cash, portfolio := shares,
        initialClick := True, running := True\<rparr>"

section \<open>Trades and the end of the session on the second layer\<close>

text \<open>
  \<open>handleClick_dbl\<close> is \<^verbatim>\<open>handleClick\<close> (lines 248 to 285, quoted above) with every operator
  rounding: the difference \<^verbatim>\<open>e.clientX - bounds.left\<close>, the quotient \<^verbatim>\<open>width / 2\<close>, and in the
  two trade branches
  \<^verbatim>\<open>
  const amount = (balance * (purchasePercent / 100)) / price;
  const spent = amount * price;
  setBalance(b => b - spent);
  setPortfolio(p => p + amount);
  \<close>
  and
  \<^verbatim>\<open>
  const earned = portfolio * price;
  setBalance(b => b + earned);
  setPortfolio(0);
  \<close>
  The price of an empty series is \<^verbatim>\<open>undefined\<close>, the error \<open>NotANumber\<close> of \<open>lastPrice\<close>;
  the operators pass it on.
\<close>

definition buy_side_dbl :: "click \<Rightarrow> bool" where
  "buy_side_dbl e = (fl (clientX e - bounds_left e) > fl (bounds_width e / 2))"

definition handleClick_dbl :: "state \<Rightarrow> click \<Rightarrow> error + state" where
  "handleClick_dbl s e =
     (if showSettings s \<or> showShop s \<or> finished s then Inr s
      else
        (let clickX = fl (clientX e - bounds_left e);
             width = bounds_width e;
             price = lastPrice (prices s)
         in
           if \<not> initialClick s \<and> clickX > fl (width / 2) then
             Inr (s\<lparr>initialClick := True, running := True, timeLeft := 60\<rparr>)
           else if \<not> running s \<or> \<not> initialClick s then Inr s
           else if clickX > fl (width / 2) then
             (if balance s \<ge> 10 then
                (let amount =
                       js_div (js_mul (Inr (balance s))
                                 (js_div (Inr (purchasePercent s)) (Inr 100))) price;
                     spent = js_mul amount price
                 in case js_sub (Inr (balance s)) spent of
                      Inl err \<Rightarrow> Inl err
                    | Inr b \<Rightarrow>
                        (case js_add (Inr (portfolio s)) amount of
                           Inl err \<Rightarrow> Inl err
                         | Inr p \<Rightarrow> Inr (s\<lparr>balance := b, portfolio := p\<rparr>)))
              else Inr s)
           else
             (if portfolio s > 0 then
                (let earned = js_mul (Inr (portfolio s)) price
                 in case js_add (Inr (balance s)) earned of
                      Inl err \<Rightarrow> Inl err
                    | Inr b \<Rightarrow> Inr (s\<lparr>balance := b, portfolio := 0\<rparr>))
              else Inr s)))"

text \<open>
  The values of \<^verbatim>\<open>amount\<close> and \<^verbatim>\<open>spent\<close> in the buy branch when they are finite.
\<close>

definition buy_amount :: "state \<Rightarrow> real" where
  "buy_amount s =
     fl (fl (balance s * fl (purchasePercent s / 100)) / last (prices s))"

definition buy_spent :: "state \<Rightarrow> real" where
  "buy_spent s = fl (buy_amount s * last (prices s))"

text \<open>
  The effect that ends the game (lines 227 to 239, quoted above) with every operator
  rounding.
\<close>

definition timerFinish_dbl :: "state \<Rightarrow> error + state" where
  "timerFinish_dbl s =
     (if \<not> running s \<or> timeLeft s > 0 then Inr s
      else
        (let finalPrice = lastPrice (prices s);
             earned = js_mul (Inr (portfolio s)) finalPrice;
             newBalance = js_add (Inr (balance s)) earned;
             profitPct = js_div (js_sub newBalance (Inr 100)) (Inr 100)
         in case newBalance of
              Inl err \<Rightarrow> Inl err
            | Inr nb \<Rightarrow>
                (case profitPct of
                   Inl err \<Rightarrow> Inl err
                 | Inr pct \<Rightarrow>
                     (case (if pct > 0
                            then js_add (Inr (savedCoins s)) (js_mul (Inr pct) (Inr 100))
                            else Inr (savedCoins s)) of
                        Inl err \<Rightarrow> Inl err
                      | Inr coins \<Rightarrow>
                          Inr (s\<lparr>savedCoins := coins, balance := nb, portfolio := 0,
                                 running := False, finished := True\<rparr>)))))"







abbreviation sc_97 :: state where
  "sc_97 \<equiv> trading_state 100 0 97"

abbreviation sc_97_bought :: state where
  "sc_97_bought \<equiv> sc_97\<lparr>balance := 7036874417766401 / 140737488355328, portfolio := 290180388361501 / 562949953421312\<rparr>"

abbreviation sc_100 :: state where
  "sc_100 \<equiv> trading_state 100 0 100"

abbreviation sc_100_bought :: state where
  "sc_100_bought \<equiv> sc_100\<lparr>balance := 50, portfolio := 1 / 2\<rparr>"

abbreviation sc_100_sold :: state where
  "sc_100_sold \<equiv> sc_100_bought\<lparr>balance := 100, portfolio := 0\<rparr>"

abbreviation sc_100_timed_out :: state where
  "sc_100_timed_out \<equiv> sc_100_bought\<lparr>timeLeft := 0\<rparr>"

abbreviation sc_100_finished :: state where
  "sc_100_finished \<equiv> sc_100_timed_out\<lparr>savedCoins := savedCoins sc_100_timed_out, balance := 100, portfolio := 0, running := False, finished := True\<rparr>"

abbreviation sc_all_in :: state where
  "sc_all_in \<equiv> (trading_state 100 0 11)\<lparr>purchasePercent := 100\<rparr>"

abbreviation sc_all_in_bought :: state where
  "sc_all_in_bought \<equiv> sc_all_in\<lparr>balance := - (1 / 70368744177664), portfolio := 5117726849284655 / 562949953421312\<rparr>"

abbreviation sc_ninety :: state where
  "sc_ninety \<equiv> (trading_state 100 0 11)\<lparr>purchasePercent := 90\<rparr>"

abbreviation sc_ninety_bought :: state where
  "sc_ninety_bought \<equiv> sc_ninety\<lparr>balance := 10, portfolio := 4605954164356189 / 562949953421312\<rparr>"

abbreviation sc_shop_open :: state where
  "sc_shop_open \<equiv> sc_100\<lparr>showShop := True\<rparr>"

abbreviation sc_poor :: state where
  "sc_poor \<equiv> trading_state 8 0 100"

section \<open>Properties of the price process\<close>

lemma generatePrice_pos: "0 < prev \<Longrightarrow> 0 < generatePrice prev d v r"
  by (simp add: generatePrice_def)

section \<open>Exact window sums\<close>

lemma running_sum_0: "running_sum data w 0 = 0"
  by (simp add: running_sum_def)

lemma running_sum_grow:
  assumes "i < w"
  shows "running_sum data w (Suc i) = running_sum data w i + data ! i"
  using assms by (simp add: running_sum_def)

lemma running_sum_slide:
  assumes "w \<le> i" and "1 \<le> w"
  shows "running_sum data w (Suc i) = running_sum data w i + data ! i - data ! (i - w)"
proof -
  have a: "Suc i - w = Suc (i - w)"
    using assms by simp
  have b: "i - w < i" and c: "Suc (i - w) \<le> i"
    using assms by simp_all
  have "running_sum data w i = data ! (i - w) + (\<Sum>k = Suc (i - w) ..< i. data ! k)"
    unfolding running_sum_def using b by (rule sum.atLeast_Suc_lessThan)
  moreover have "running_sum data w (Suc i) = (\<Sum>k = Suc (i - w) ..< i. data ! k) + data ! i"
    unfolding running_sum_def a using c by (rule sum.atLeastLessThan_Suc)
  ultimately show ?thesis by simp
qed

lemma sum_list_window:
  assumes "i + w \<le> length data"
  shows "sum_list (take w (drop i data)) = (\<Sum>k = i ..< i + w. data ! k)"
proof -
  have len: "length (take w (drop i data)) = w"
    using assms by simp
  have "sum_list (take w (drop i data)) = (\<Sum>k = 0 ..< w. take w (drop i data) ! k)"
    using sum_list_sum_nth [of "take w (drop i data)"] len by simp
  also have "\<dots> = (\<Sum>k = 0 ..< w. data ! (i + k))"
    using assms by (intro sum.cong) auto
  also have "\<dots> = (\<Sum>k = i ..< i + w. data ! k)"
    using sum.shift_bounds_nat_ivl [of "\<lambda>k. data ! k" 0 i w] by (simp add: add.commute)
  finally show ?thesis .
qed

lemma window_mean_running_sum:
  assumes "1 \<le> w" and "w - 1 \<le> i" and "i < length data"
  shows "running_sum data w (Suc i) / real w = window_mean data w (Suc i - w)"
proof -
  have "Suc i - w + w = Suc i"
    using assms by simp
  then show ?thesis
    using assms sum_list_window [of "Suc i - w" w data]
    by (simp add: window_mean_def running_sum_def)
qed

section \<open>Properties of the candle aggregation\<close>

lemma run_count_iff:
  assumes "1 \<le> b"
  shows "k < run_count ps b \<longleftrightarrow> k * b < length ps"
proof -
  have "k < run_count ps b \<longleftrightarrow> Suc k \<le> (length ps + b - 1) div b"
    by (simp add: run_count_def Suc_le_eq)
  also have "\<dots> \<longleftrightarrow> Suc k * b \<le> length ps + b - 1"
    using assms by (simp add: less_eq_div_iff_mult_less_eq)
  also have "\<dots> \<longleftrightarrow> k * b < length ps"
    using assms by auto
  finally show ?thesis .
qed

lemma run_count_covers:
  assumes "1 \<le> b"
  shows "length ps \<le> run_count ps b * b"
proof (rule ccontr)
  assume "\<not> length ps \<le> run_count ps b * b"
  then have "run_count ps b * b < length ps" by simp
  then have "run_count ps b < run_count ps b"
    using run_count_iff [OF assms, of "run_count ps b" ps] by simp
  then show False by simp
qed

lemma run_nonempty:
  assumes "1 \<le> b" and "k < run_count ps b"
  shows "run ps b k \<noteq> []"
  using assms run_count_iff [of b k ps] by (simp add: run_def)

lemma run_length_le: "length (run ps b k) \<le> b"
  by (simp add: run_def)

lemma run_length_full:
  assumes "1 \<le> b" and "Suc k < run_count ps b"
  shows "length (run ps b k) = b"
proof -
  have "Suc k * b < length ps"
    using assms run_count_iff [of b "Suc k" ps] by simp
  then show ?thesis by (simp add: run_def)
qed

lemma concat_runs: "concat (map (run ps b) [0 ..< m]) = take (m * b) ps"
proof (induction m)
  case 0
  show ?case by simp
next
  case (Suc m)
  have "take (Suc m * b) ps = take (m * b) ps @ take b (drop (m * b) ps)"
    using take_add [of "m * b" b ps] by (simp add: add.commute)
  with Suc show ?case by (simp add: run_def)
qed

lemma runs_cover:
  assumes "1 \<le> b"
  shows "concat (map (run ps b) [0 ..< run_count ps b]) = ps"
  using run_count_covers [OF assms, of ps] by (simp add: concat_runs)

lemma candle_of_run_Cons:
  "candle_of_run i (v # vs) =
     \<lparr>candle_x = i, candle_o = v, candle_h = fold max vs v,
      candle_l = fold min vs v, candle_c = last (v # vs)\<rparr>"
  unfolding candle_of_run_def
  using Max.set_eq_fold [of v vs] Min.set_eq_fold [of v vs] by simp

lemma buildCandles_loop_runs:
  assumes "1 \<le> b" and "k \<le> run_count ps b"
  shows "buildCandles_loop ps b (k * b) cs =
           cs @ map (\<lambda>j. candle_of_run (j * b) (run ps b j)) [k ..< run_count ps b]"
  using assms(2)
proof (induction "run_count ps b - k" arbitrary: k cs)
  case 0
  then have "k = run_count ps b" by simp
  then have "\<not> k * b < length ps"
    using run_count_iff [OF assms(1), of k ps] by simp
  then show ?case
    using \<open>k = run_count ps b\<close> by (subst buildCandles_loop.simps) simp
next
  case (Suc n)
  then have lt: "k < run_count ps b" by simp
  then have i: "k * b < length ps"
    using run_count_iff [OF assms(1), of k ps] by simp
  have sl: "slice ps (k * b) (k * b + b) = run ps b k"
    by (simp add: slice_def run_def)
  obtain v vs where r: "run ps b k = v # vs"
    using run_nonempty [OF assms(1) lt] by (cases "run ps b k") auto
  have "buildCandles_loop ps b (k * b) cs =
          buildCandles_loop ps b (Suc k * b) (cs @ [candle_of_run (k * b) (run ps b k)])"
    using i sl r by (subst buildCandles_loop.simps) (simp add: candle_of_run_Cons add.commute)
  also have "\<dots> = (cs @ [candle_of_run (k * b) (run ps b k)])
        @ map (\<lambda>j. candle_of_run (j * b) (run ps b j)) [Suc k ..< run_count ps b]"
    using Suc.hyps(1) [of "Suc k"] Suc.hyps(2) lt by simp
  also have "\<dots> = cs @ map (\<lambda>j. candle_of_run (j * b) (run ps b j)) [k ..< run_count ps b]"
    using lt by (simp add: upt_conv_Cons)
  finally show ?case .
qed

lemma buildCandles_runs:
  assumes "1 \<le> b"
  shows "buildCandles ps b = map (\<lambda>k. candle_of_run (k * b) (run ps b k)) [0 ..< run_count ps b]"
  using buildCandles_loop_runs [OF assms, of 0 ps "[]"] by (simp add: buildCandles_def)

lemma candle_of_run_bounds:
  assumes "r \<noteq> []"
  shows "candle_l (candle_of_run i r) \<le> candle_o (candle_of_run i r)"
    and "candle_o (candle_of_run i r) \<le> candle_h (candle_of_run i r)"
    and "candle_l (candle_of_run i r) \<le> candle_c (candle_of_run i r)"
    and "candle_c (candle_of_run i r) \<le> candle_h (candle_of_run i r)"
    and "candle_l (candle_of_run i r) \<le> candle_h (candle_of_run i r)"
proof -
  have h: "hd r \<in> set r" and l: "last r \<in> set r"
    using assms by simp_all
  show "candle_l (candle_of_run i r) \<le> candle_o (candle_of_run i r)"
    using h by (simp add: candle_of_run_def)
  show "candle_o (candle_of_run i r) \<le> candle_h (candle_of_run i r)"
    using h by (simp add: candle_of_run_def)
  show "candle_l (candle_of_run i r) \<le> candle_c (candle_of_run i r)"
    using l by (simp add: candle_of_run_def)
  show "candle_c (candle_of_run i r) \<le> candle_h (candle_of_run i r)"
    using l by (simp add: candle_of_run_def)
  show "candle_l (candle_of_run i r) \<le> candle_h (candle_of_run i r)"
  proof -
    have "Min (set r) \<le> hd r" and "hd r \<le> Max (set r)"
      using h by simp_all
    then show ?thesis by (simp add: candle_of_run_def)
  qed
qed

text \<open>
  Claim C6. For every series and every bucket size \<open>b \<ge> 1\<close>, \<open>buildCandles\<close> returns one
  candle for each of the \<open>run_count ps b\<close> runs \<open>take b (drop (k * b) ps)\<close>. The runs are
  contiguous and in order, their concatenation is the series, every run is non-empty
  and has at most \<open>b\<close> ticks, and only the last may have fewer. Candle \<open>k\<close> has the offset
  \<open>k * b\<close> of its run as index, the first element of the run as open, the last as
  close, the maximum as high and the minimum as low, so that low \<open>\<le>\<close> open, close \<open>\<le>\<close> high.
\<close>

theorem buildCandles_partition:
  assumes "1 \<le> b"
  shows "length (buildCandles ps b) = run_count ps b
    \<and> concat (map (run ps b) [0 ..< run_count ps b]) = ps
    \<and> (\<forall>k < run_count ps b.
          run ps b k = take b (drop (k * b) ps)
          \<and> run ps b k \<noteq> []
          \<and> length (run ps b k) \<le> b
          \<and> (Suc k < run_count ps b \<longrightarrow> length (run ps b k) = b)
          \<and> candle_x (buildCandles ps b ! k) = k * b
          \<and> candle_o (buildCandles ps b ! k) = hd (run ps b k)
          \<and> candle_c (buildCandles ps b ! k) = last (run ps b k)
          \<and> candle_h (buildCandles ps b ! k) = Max (set (run ps b k))
          \<and> candle_l (buildCandles ps b ! k) = Min (set (run ps b k))
          \<and> candle_l (buildCandles ps b ! k) \<le> candle_o (buildCandles ps b ! k)
          \<and> candle_l (buildCandles ps b ! k) \<le> candle_c (buildCandles ps b ! k)
          \<and> candle_l (buildCandles ps b ! k) \<le> candle_h (buildCandles ps b ! k)
          \<and> candle_o (buildCandles ps b ! k) \<le> candle_h (buildCandles ps b ! k)
          \<and> candle_c (buildCandles ps b ! k) \<le> candle_h (buildCandles ps b ! k))"
proof (intro conjI allI impI)
  show "length (buildCandles ps b) = run_count ps b"
    by (simp add: buildCandles_runs [OF assms])
  show "concat (map (run ps b) [0 ..< run_count ps b]) = ps"
    by (rule runs_cover [OF assms])
next
  fix k
  assume k: "k < run_count ps b"
  have nth: "buildCandles ps b ! k = candle_of_run (k * b) (run ps b k)"
    using k by (simp add: buildCandles_runs [OF assms])
  note ne = run_nonempty [OF assms k]
  show "run ps b k = take b (drop (k * b) ps)" by (simp add: run_def)
  show "run ps b k \<noteq> []" by (rule ne)
  show "length (run ps b k) \<le> b" by (rule run_length_le)
  show "candle_x (buildCandles ps b ! k) = k * b" by (simp add: nth candle_of_run_def)
  show "candle_o (buildCandles ps b ! k) = hd (run ps b k)" by (simp add: nth candle_of_run_def)
  show "candle_c (buildCandles ps b ! k) = last (run ps b k)" by (simp add: nth candle_of_run_def)
  show "candle_h (buildCandles ps b ! k) = Max (set (run ps b k))"
    by (simp add: nth candle_of_run_def)
  show "candle_l (buildCandles ps b ! k) = Min (set (run ps b k))"
    by (simp add: nth candle_of_run_def)
  show "candle_l (buildCandles ps b ! k) \<le> candle_o (buildCandles ps b ! k)"
    unfolding nth by (rule candle_of_run_bounds [OF ne])
  show "candle_l (buildCandles ps b ! k) \<le> candle_c (buildCandles ps b ! k)"
    unfolding nth by (rule candle_of_run_bounds [OF ne])
  show "candle_l (buildCandles ps b ! k) \<le> candle_h (buildCandles ps b ! k)"
    unfolding nth by (rule candle_of_run_bounds [OF ne])
  show "candle_o (buildCandles ps b ! k) \<le> candle_h (buildCandles ps b ! k)"
    unfolding nth by (rule candle_of_run_bounds [OF ne])
  show "candle_c (buildCandles ps b ! k) \<le> candle_h (buildCandles ps b ! k)"
    unfolding nth by (rule candle_of_run_bounds [OF ne])
  show "length (run ps b k) = b" if "Suc k < run_count ps b"
    using that by (rule run_length_full [OF assms])
qed

theorem buildCandles_partition_witness:
  "(1::nat) \<le> 3
    \<and> run_count [3, 1, 4, 1, 5, 9, 2] 3 = 3
    \<and> length (buildCandles [3, 1, 4, 1, 5, 9, 2] 3) = 3
    \<and> concat (map (run [3, 1, 4, 1, 5, 9, 2] 3) [0 ..< 3]) = [3, 1, 4, 1, 5, 9, 2]
    \<and> run [3, 1, 4, 1, 5, 9, 2] 3 1 = [1, 5, 9]
    \<and> length (run [3, 1, 4, 1, 5, 9, 2] 3 1) = 3
    \<and> candle_x (buildCandles [3, 1, 4, 1, 5, 9, 2] 3 ! 1) = 3
    \<and> candle_o (buildCandles [3, 1, 4, 1, 5, 9, 2] 3 ! 1) = 1
    \<and> candle_c (buildCandles [3, 1, 4, 1, 5, 9, 2] 3 ! 1) = 9
    \<and> candle_h (buildCandles [3, 1, 4, 1, 5, 9, 2] 3 ! 1) = 9
    \<and> candle_l (buildCandles [3, 1, 4, 1, 5, 9, 2] 3 ! 1) = 1
    \<and> run [3, 1, 4, 1, 5, 9, 2] 3 2 = [2]
    \<and> candle_x (buildCandles [3, 1, 4, 1, 5, 9, 2] 3 ! 2) = 6
    \<and> candle_h (buildCandles [3, 1, 4, 1, 5, 9, 2] 3 ! 2) = 2"
proof -
  let ?ps = "[3, 1, 4, 1, 5, 9, 2] :: real list"
  have b: "(1::nat) \<le> 3" by simp
  have rc: "run_count ?ps 3 = 3" by (simp add: run_count_def)
  have r1: "run ?ps 3 1 = [1, 5, 9]" and r2: "run ?ps 3 2 = [2]"
    by (simp_all add: run_def)
  note t = buildCandles_partition [OF b, of ?ps]
  note t1 = t [THEN conjunct2, THEN conjunct2, rule_format, of 1]
  note t2 = t [THEN conjunct2, THEN conjunct2, rule_format, of 2]
  show ?thesis
    using t t1 t2 unfolding rc r1 r2 by simp
qed

section \<open>Invariants of the game state\<close>

lemma positive_prices_snoc:
  "positive_prices ps \<Longrightarrow> 0 < p \<Longrightarrow> positive_prices (ps @ [p])"
  by (simp add: positive_prices_def)

lemma positive_prices_last: "positive_prices ps \<Longrightarrow> 0 < last ps"
  by (auto simp: positive_prices_def list_all_iff)

lemma positive_prices_nth: "positive_prices ps \<Longrightarrow> i < length ps \<Longrightarrow> 0 < ps ! i"
  by (auto simp: positive_prices_def list_all_iff)

lemma positive_prices_drop:
  "positive_prices ps \<Longrightarrow> n < length ps \<Longrightarrow> positive_prices (drop n ps)"
  by (auto simp: positive_prices_def list_all_iff dest: in_set_dropD)

lemma lastPrice_positive: "positive_prices ps \<Longrightarrow> lastPrice ps = Inr (last ps)"
  by (cases ps) (simp_all add: positive_prices_def lastPrice_def)


lemma generateInitialPrices_loop_props:
  assumes "positive_prices arr" and "length arr = i"
  shows "positive_prices (generateInitialPrices_loop len d v rnd i arr)
    \<and> length (generateInitialPrices_loop len d v rnd i arr) = max i len
    \<and> hd (generateInitialPrices_loop len d v rnd i arr) = hd arr"
  using assms
proof (induction len d v rnd i arr rule: generateInitialPrices_loop.induct)
  case (1 len d v rnd i arr)
  show ?case
  proof (cases "i < len")
    case False
    then show ?thesis
      using "1.prems" by (subst (1 2 3) generateInitialPrices_loop.simps) simp
  next
    case True
    define arr2 where "arr2 = arr @ [generatePrice (arr ! (i - 1)) d v (rnd (i - 1))]"
    have ne: "arr \<noteq> []" using "1.prems" by (simp add: positive_prices_def)
    then have "i - 1 < length arr" using "1.prems" by (cases arr) auto
    then have "0 < arr ! (i - 1)"
      using "1.prems" positive_prices_nth by blast
    then have p: "positive_prices arr2"
      unfolding arr2_def using "1.prems" by (intro positive_prices_snoc generatePrice_pos)
    have l: "length arr2 = i + 1"
      using "1.prems" by (simp add: arr2_def)
    have step: "generateInitialPrices_loop len d v rnd i arr =
                  generateInitialPrices_loop len d v rnd (i + 1) arr2"
      using True by (subst generateInitialPrices_loop.simps) (simp add: arr2_def)
    have "hd arr2 = hd arr" using ne by (simp add: arr2_def)
    then show ?thesis
      using "1.IH" [OF True, folded arr2_def, OF p l] True unfolding step by simp
  qed
qed

lemma generateInitialPrices_positive:
  "positive_prices (generateInitialPrices len 100 d v rnd)"
  using generateInitialPrices_loop_props [of "[100]" 1 len d v rnd]
  by (simp add: generateInitialPrices_def positive_prices_def)

lemma generateInitialPrices_length:
  "0 < start \<Longrightarrow> length (generateInitialPrices len start d v rnd) = max 1 len"
  using generateInitialPrices_loop_props [of "[start]" 1 len d v rnd]
  by (simp add: generateInitialPrices_def positive_prices_def)

lemma generateInitialPrices_hd:
  "0 < start \<Longrightarrow> hd (generateInitialPrices len start d v rnd) = start"
  using generateInitialPrices_loop_props [of "[start]" 1 len d v rnd]
  by (simp add: generateInitialPrices_def positive_prices_def)

lemma candleFill_loop_positive:
  "positive_prices p \<Longrightarrow> positive_prices (candleFill_loop p d v rnd k)"
proof (induction p d v rnd k rule: candleFill_loop.induct)
  case (1 p d v rnd k)
  show ?case
  proof (cases "length p < CANDLE_INIT")
    case False
    then show ?thesis
      using "1.prems" by (subst candleFill_loop.simps) simp
  next
    case True
    have "positive_prices (p @ [generatePrice (last p) d v (rnd k)])"
      using "1.prems" by (intro positive_prices_snoc generatePrice_pos positive_prices_last)
    then show ?thesis
      using "1.IH" [OF True] True by (subst candleFill_loop.simps) simp
  qed
qed

lemma initial_state_inv: "state_inv (initial_state rnd)"
  using generateInitialPrices_positive [of LINE_INIT "0.001" "0.01" rnd]
  by (simp add: state_inv_def initial_state_def)

lemma priceTick_inv:
  assumes "state_inv s" and "priceTick s r1 r2 r3 r4 = Inr s'"
  shows "state_inv s'"
proof -
  have pp: "positive_prices (prices s)" using assms(1) by (simp add: state_inv_def)
  define updated where "updated = prices s @ [generatePrice (last (prices s)) (mu s) (sigma s) r1]"
  define maxPoints where "maxPoints = (if selectedChart s = ''candle'' then 300 else 100 :: nat)"
  have u: "positive_prices updated"
    unfolding updated_def using pp
    by (intro positive_prices_snoc generatePrice_pos positive_prices_last)
  have "0 < maxPoints" by (simp add: maxPoints_def)
  moreover have "0 < length updated" by (simp add: updated_def)
  ultimately have "length updated - maxPoints < length updated" by simp
  then have d: "positive_prices (drop (length updated - maxPoints) updated)"
    using u by (rule positive_prices_drop [rotated])
  have "s' = s\<lparr>prices := drop (length updated - maxPoints) updated,
                mu := mu s + (r2 - 0.5) / 500,
                sigma := (if r3 < 0.3 then r4 / 25 else sigma s)\<rparr>"
    using assms(2) lastPrice_positive [OF pp]
    by (simp add: priceTick_def Let_def updated_def maxPoints_def)
  then show ?thesis
    using assms(1) d by (simp add: state_inv_def)
qed

lemma priceTick_succeeds:
  "state_inv s \<Longrightarrow> \<exists>s'. priceTick s r1 r2 r3 r4 = Inr s'"
  using lastPrice_positive [of "prices s"] by (simp add: priceTick_def state_inv_def Let_def)

lemma candleFill_inv:
  assumes "state_inv s" and "candleFill s rnd = Inr s'"
  shows "state_inv s'"
proof -
  have pp: "positive_prices (prices s)" using assms(1) by (simp add: state_inv_def)
  show ?thesis
    using assms lastPrice_positive [OF pp]
      candleFill_loop_positive [OF pp, of "mu s" "sigma s" rnd 0]
    by (auto simp: candleFill_def state_inv_def split: if_splits)
qed

lemma timerTick_inv: "state_inv s \<Longrightarrow> state_inv (timerTick s)"
  by (simp add: timerTick_def state_inv_def)

lemma timerFinish_inv:
  assumes "state_inv s" and "timerFinish s = Inr s'"
  shows "state_inv s'"
proof -
  have pp: "positive_prices (prices s)" using assms(1) by (simp add: state_inv_def)
  have "0 \<le> portfolio s * last (prices s)"
    using assms(1) positive_prices_last [OF pp] by (simp add: state_inv_def)
  then show ?thesis
    using assms lastPrice_positive [OF pp]
    by (auto simp: timerFinish_def state_inv_def Let_def split: if_splits)
qed

lemma buy_spend_bounds:
  assumes "0 \<le> b" and "10 \<le> p" and "p \<le> 100"
  shows "0 \<le> b * (p / 100)" and "b * (p / 100) \<le> (b::real)"
proof -
  have q: "0 \<le> p / 100" "p / 100 \<le> 1" using assms by simp_all
  show "0 \<le> b * (p / 100)"
    using assms(1) q(1) by (rule mult_nonneg_nonneg)
  show "b * (p / 100) \<le> b"
    using mult_left_mono [OF q(2) assms(1)] by simp
qed

lemma handleClick_inv:
  assumes "state_inv s" and "handleClick s e = Inr s'"
  shows "state_inv s'"
proof -
  have pp: "positive_prices (prices s)" using assms(1) by (simp add: state_inv_def)
  note lp = positive_prices_last [OF pp]
  have b: "0 \<le> balance s * (purchasePercent s / 100)"
      "balance s * (purchasePercent s / 100) \<le> balance s"
    using assms(1) buy_spend_bounds [of "balance s" "purchasePercent s"]
    by (simp_all add: state_inv_def)
  have e: "0 \<le> portfolio s * last (prices s)"
    using assms(1) lp by (simp add: state_inv_def)
  show ?thesis
    using assms lastPrice_positive [OF pp] lp b e
    by (auto simp: handleClick_def state_inv_def Let_def split: if_splits)
qed

lemma resetToHome_inv: "state_inv s \<Longrightarrow> state_inv (resetToHome s rnd)"
  using generateInitialPrices_positive [of _ "0.001" "0.01" rnd]
  by (simp add: resetToHome_def state_inv_def Let_def)

lemma handlePurchase_inv: "state_inv s \<Longrightarrow> state_inv (handlePurchase s it)"
  by (simp add: handlePurchase_def state_inv_def)

lemma applyTheme_inv: "state_inv s \<Longrightarrow> state_inv (applyTheme s i)"
  by (simp add: applyTheme_def state_inv_def)

lemma toggleStat_inv: "state_inv s \<Longrightarrow> state_inv (toggleStat s i)"
  by (simp add: toggleStat_def state_inv_def)

lemma reachable_inv: "reachable s \<Longrightarrow> state_inv s"
proof (induction rule: reachable.induct)
  case (r_initial rnd)
  show ?case by (rule initial_state_inv)
next
  case (r_priceTick s r1 r2 r3 r4 s')
  then show ?case using priceTick_inv by blast
next
  case (r_candleFill s rnd s')
  then show ?case using candleFill_inv by blast
next
  case (r_timerTick s)
  then show ?case by (simp add: timerTick_inv)
next
  case (r_timerFinish s s')
  then show ?case using timerFinish_inv by blast
next
  case (r_handleClick s e s')
  then show ?case using handleClick_inv by blast
next
  case (r_resetToHome s rnd)
  then show ?case by (simp add: resetToHome_inv)
next
  case (r_handlePurchase s it)
  then show ?case by (simp add: handlePurchase_inv)
next
  case (r_applyTheme s i)
  then show ?case by (simp add: applyTheme_inv)
next
  case (r_toggleStat s i)
  then show ?case by (simp add: toggleStat_inv)
next
  case (r_setSelectedChart s i)
  then show ?case by (simp add: state_inv_def)
next
  case (r_setShowSettings s b)
  then show ?case by (simp add: state_inv_def)
next
  case (r_setShowShop s b)
  then show ?case by (simp add: state_inv_def)
next
  case (r_setPurchasePercent s k)
  then show ?case by (simp add: state_inv_def)
qed

section \<open>Session finalisation\<close>

lemma trading_state_fields:
  "prices (trading_state c q p) = [p]" "balance (trading_state c q p) = c"
  "portfolio (trading_state c q p) = q" "running (trading_state c q p)"
  "initialClick (trading_state c q p)" "\<not> finished (trading_state c q p)"
  "\<not> showSettings (trading_state c q p)" "\<not> showShop (trading_state c q p)"
  "purchasePercent (trading_state c q p) = 50" "timeLeft (trading_state c q p) = 60"
  "savedCoins (trading_state c q p) = 0"
  by (simp_all add: trading_state_def initial_state_def)

lemma trading_state_Running: "is_Running (trading_state c q p)"
  by (simp add: is_Running_def trading_state_fields)

lemma click_sides: "buy_side right_click" "\<not> buy_side left_click"
  by (simp_all add: buy_side_def right_click_def left_click_def)





section \<open>Handlers, branch by branch\<close>

lemma handleClick_blocked:
  "showSettings s \<or> showShop s \<or> finished s \<Longrightarrow> handleClick s e = Inr s"
  by (simp add: handleClick_def)

lemma handleClick_waiting_left:
  "\<not> initialClick s \<Longrightarrow> \<not> buy_side e \<Longrightarrow> handleClick s e = Inr s"
  by (simp add: handleClick_def buy_side_def Let_def)

lemma handleClick_not_running:
  "\<not> running s \<Longrightarrow> initialClick s \<Longrightarrow> handleClick s e = Inr s"
  by (simp add: handleClick_def Let_def)

lemma handleClick_buy_poor:
  "buy_side e \<Longrightarrow> initialClick s \<Longrightarrow> balance s < 10 \<Longrightarrow> handleClick s e = Inr s"
  by (simp add: handleClick_def buy_side_def Let_def)

lemma handleClick_sell_empty:
  "\<not> buy_side e \<Longrightarrow> portfolio s \<le> 0 \<Longrightarrow> handleClick s e = Inr s"
  by (simp add: handleClick_def buy_side_def Let_def)




lemma handlePurchase_poor: "savedCoins s < item_price it \<Longrightarrow> handlePurchase s it = s"
  by (simp add: handlePurchase_def)

lemma handlePurchase_owned: "owned s it \<Longrightarrow> handlePurchase s it = s"
  unfolding handlePurchase_def owned_def by (elim disjE conjE) simp_all

lemma handlePurchase_other:
  "item_type it \<noteq> ''theme'' \<Longrightarrow> item_type it \<noteq> ''chart'' \<Longrightarrow> item_type it \<noteq> ''stat''
    \<Longrightarrow> handlePurchase s it = s"
  by (simp add: handlePurchase_def)

lemma handlePurchase_theme:
  assumes "item_type it = ''theme''" and "\<not> owned s it" and "item_price it \<le> savedCoins s"
  shows "handlePurchase s it =
           s\<lparr>savedCoins := savedCoins s - item_price it,
             unlockedThemes := unlockedThemes s @ [item_id it]\<rparr>"
  using assms by (simp add: handlePurchase_def owned_def)

lemma handlePurchase_chart:
  assumes "item_type it = ''chart''" and "\<not> owned s it" and "item_price it \<le> savedCoins s"
  shows "handlePurchase s it =
           s\<lparr>savedCoins := savedCoins s - item_price it,
             unlockedCharts := unlockedCharts s @ [item_id it]\<rparr>"
  using assms by (simp add: handlePurchase_def owned_def)

lemma handlePurchase_stat:
  assumes "item_type it = ''stat''" and "\<not> owned s it" and "item_price it \<le> savedCoins s"
  shows "handlePurchase s it =
           s\<lparr>savedCoins := savedCoins s - item_price it,
             unlockedStats := unlockedStats s @ [item_id it]\<rparr>"
  using assms by (simp add: handlePurchase_def owned_def)

lemma handlePurchase_atomic:
  "handlePurchase s it = s
   \<or> handlePurchase s it =
        s\<lparr>savedCoins := savedCoins s - item_price it,
          unlockedThemes := unlockedThemes s @ [item_id it]\<rparr>
   \<or> handlePurchase s it =
        s\<lparr>savedCoins := savedCoins s - item_price it,
          unlockedCharts := unlockedCharts s @ [item_id it]\<rparr>
   \<or> handlePurchase s it =
        s\<lparr>savedCoins := savedCoins s - item_price it,
          unlockedStats := unlockedStats s @ [item_id it]\<rparr>"
proof (cases "owned s it \<or> savedCoins s < item_price it")
  case True
  then have "handlePurchase s it = s"
    using handlePurchase_owned handlePurchase_poor by blast
  then show ?thesis by (rule disjI1)
next
  case False
  then have n: "\<not> owned s it" and p: "item_price it \<le> savedCoins s" by simp_all
  consider "item_type it = ''theme''" | "item_type it = ''chart''" | "item_type it = ''stat''"
    | "item_type it \<noteq> ''theme''" "item_type it \<noteq> ''chart''" "item_type it \<noteq> ''stat''"
    by blast
  then show ?thesis
  proof cases
    case 1
    show ?thesis using handlePurchase_theme [OF 1 n p] by blast
  next
    case 2
    show ?thesis using handlePurchase_chart [OF 2 n p] by blast
  next
    case 3
    show ?thesis using handlePurchase_stat [OF 3 n p] by blast
  next
    case 4
    then show ?thesis using handlePurchase_other by blast
  qed
qed

text \<open>
  Claim C8. Every named rejection leaves the state as it is: a click while the session
  is finished, a click on the sell side while waiting to start, a buy with cash below 10,
  a sell with no shares, a purchase the reward currency does not cover, and a purchase of
  an item that is owned already. A purchase is atomic: the state is unchanged, or the
  price is deducted and the item is appended to the unlocked list of its category.
\<close>

theorem rejections_leave_state:
  "(is_Finished s \<longrightarrow> handleClick s e = Inr s)
   \<and> (is_WaitingToStart s \<and> \<not> buy_side e \<longrightarrow> handleClick s e = Inr s)
   \<and> (is_Running s \<and> buy_side e \<and> balance s < 10 \<longrightarrow> handleClick s e = Inr s)
   \<and> (is_Running s \<and> \<not> buy_side e \<and> portfolio s = 0 \<longrightarrow> handleClick s e = Inr s)
   \<and> (savedCoins s < item_price it \<longrightarrow> handlePurchase s it = s)
   \<and> (owned s it \<longrightarrow> handlePurchase s it = s)
   \<and> (handlePurchase s it = s
        \<or> handlePurchase s it =
             s\<lparr>savedCoins := savedCoins s - item_price it,
               unlockedThemes := unlockedThemes s @ [item_id it]\<rparr>
        \<or> handlePurchase s it =
             s\<lparr>savedCoins := savedCoins s - item_price it,
               unlockedCharts := unlockedCharts s @ [item_id it]\<rparr>
        \<or> handlePurchase s it =
             s\<lparr>savedCoins := savedCoins s - item_price it,
               unlockedStats := unlockedStats s @ [item_id it]\<rparr>)"
proof (intro conjI impI)
  show "handleClick s e = Inr s" if "is_Finished s"
    using that by (simp add: handleClick_blocked is_Finished_def)
  show "handleClick s e = Inr s" if "is_WaitingToStart s \<and> \<not> buy_side e"
    using that by (simp add: handleClick_waiting_left is_WaitingToStart_def)
  show "handleClick s e = Inr s" if "is_Running s \<and> buy_side e \<and> balance s < 10"
    using that by (simp add: handleClick_buy_poor is_Running_def)
  show "handleClick s e = Inr s" if "is_Running s \<and> \<not> buy_side e \<and> portfolio s = 0"
    using that by (simp add: handleClick_sell_empty)
  show "handlePurchase s it = s" if "savedCoins s < item_price it"
    using that by (rule handlePurchase_poor)
  show "handlePurchase s it = s" if "owned s it"
    using that by (rule handlePurchase_owned)
  show "handlePurchase s it = s
        \<or> handlePurchase s it =
             s\<lparr>savedCoins := savedCoins s - item_price it,
               unlockedThemes := unlockedThemes s @ [item_id it]\<rparr>
        \<or> handlePurchase s it =
             s\<lparr>savedCoins := savedCoins s - item_price it,
               unlockedCharts := unlockedCharts s @ [item_id it]\<rparr>
        \<or> handlePurchase s it =
             s\<lparr>savedCoins := savedCoins s - item_price it,
               unlockedStats := unlockedStats s @ [item_id it]\<rparr>"
    by (rule handlePurchase_atomic)
qed

lemma initial_state_Waiting: "is_WaitingToStart (initial_state rnd)"
  by (simp add: is_WaitingToStart_def initial_state_def)

theorem rejections_leave_state_witness:
  "is_Finished ((trading_state 120 0 140)\<lparr>running := False, finished := True\<rparr>)
   \<and> handleClick ((trading_state 120 0 140)\<lparr>running := False, finished := True\<rparr>) right_click =
       Inr ((trading_state 120 0 140)\<lparr>running := False, finished := True\<rparr>)
   \<and> is_WaitingToStart (initial_state mid_draws) \<and> \<not> buy_side left_click
   \<and> handleClick (initial_state mid_draws) left_click = Inr (initial_state mid_draws)
   \<and> is_Running (trading_state 5 1 100) \<and> buy_side right_click
   \<and> balance (trading_state 5 1 100) < 10
   \<and> handleClick (trading_state 5 1 100) right_click = Inr (trading_state 5 1 100)
   \<and> is_Running (trading_state 100 0 100) \<and> portfolio (trading_state 100 0 100) = 0
   \<and> handleClick (trading_state 100 0 100) left_click = Inr (trading_state 100 0 100)
   \<and> savedCoins (initial_state mid_draws)
        < item_price \<lparr>item_id = ''candle'', item_price = 25, item_type = ''chart''\<rparr>
   \<and> handlePurchase (initial_state mid_draws)
        \<lparr>item_id = ''candle'', item_price = 25, item_type = ''chart''\<rparr> = initial_state mid_draws
   \<and> owned (initial_state mid_draws)
        \<lparr>item_id = ''dark-default'', item_price = 0, item_type = ''theme''\<rparr>
   \<and> handlePurchase (initial_state mid_draws)
        \<lparr>item_id = ''dark-default'', item_price = 0, item_type = ''theme''\<rparr> = initial_state mid_draws"
proof -
  let ?f = "(trading_state 120 0 140)\<lparr>running := False, finished := True\<rparr>"
  let ?i = "initial_state mid_draws"
  let ?candle = "\<lparr>item_id = ''candle'', item_price = 25, item_type = ''chart''\<rparr>"
  let ?dark = "\<lparr>item_id = ''dark-default'', item_price = 0, item_type = ''theme''\<rparr>"
  have f: "is_Finished ?f" by (simp add: is_Finished_def)
  have w: "is_WaitingToStart ?i \<and> \<not> buy_side left_click"
    by (simp add: initial_state_Waiting click_sides)
  have p: "is_Running (trading_state 5 1 100) \<and> buy_side right_click
      \<and> balance (trading_state 5 1 100) < 10"
    by (simp add: trading_state_Running click_sides trading_state_fields)
  have z: "is_Running (trading_state 100 0 100) \<and> \<not> buy_side left_click
      \<and> portfolio (trading_state 100 0 100) = 0"
    by (simp add: trading_state_Running click_sides trading_state_fields)
  have c: "savedCoins ?i < item_price ?candle" by (simp add: initial_state_def)
  have d: "owned ?i ?dark" by (simp add: owned_def initial_state_def)
  note t1 = rejections_leave_state [of ?f right_click ?candle]
  note t2 = rejections_leave_state [of ?i left_click ?candle]
  note t3 = rejections_leave_state [of "trading_state 5 1 100" right_click ?candle]
  note t4 = rejections_leave_state [of "trading_state 100 0 100" left_click ?dark]
  note t5 = rejections_leave_state [of ?i left_click ?dark]
  have "handleClick ?f right_click = Inr ?f" using t1 f by blast
  moreover have "handleClick ?i left_click = Inr ?i" using t2 w by blast
  moreover have "handleClick (trading_state 5 1 100) right_click = Inr (trading_state 5 1 100)"
    using t3 p by blast
  moreover have "handleClick (trading_state 100 0 100) left_click = Inr (trading_state 100 0 100)"
    using t4 z by blast
  moreover have "handlePurchase ?i ?candle = ?i" using t2 c by blast
  moreover have "handlePurchase ?i ?dark = ?i" using t5 d by blast
  ultimately show ?thesis using f w p z c d by blast
qed

section \<open>A session that has started\<close>

lemma mid_draws_random: "\<forall>k. random_draw (mid_draws k)"
  by (simp add: random_draw_def mid_draws_def)


section \<open>Reset\<close>

text \<open>
  Claim C3, as stated, fails. The volatility is 0.1 at startup and 0.01 after a reset;
  and with the candle chart selected a reset seeds 50 prices, where startup seeds 10.
\<close>

theorem reset_differs_from_startup:
  "sigma (initial_state mid_draws) = 1 / 10
   \<and> sigma (resetToHome (initial_state mid_draws) mid_draws) = 1 / 100
   \<and> length (prices (initial_state mid_draws)) = 10
   \<and> length (prices (resetToHome
        ((initial_state mid_draws)
           \<lparr>unlockedCharts := [''line'', ''candle''], selectedChart := ''candle''\<rparr>) mid_draws)) = 50"
proof (intro conjI)
  show "sigma (initial_state mid_draws) = 1 / 10"
    by (simp add: initial_state_def)
  show "sigma (resetToHome (initial_state mid_draws) mid_draws) = 1 / 100"
    by (simp add: resetToHome_def Let_def)
  show "length (prices (initial_state mid_draws)) = 10"
    by (simp add: initial_state_def generateInitialPrices_length LINE_INIT_def)
  show "length (prices (resetToHome
        ((initial_state mid_draws)
           \<lparr>unlockedCharts := [''line'', ''candle''], selectedChart := ''candle''\<rparr>) mid_draws)) = 50"
    by (simp add: resetToHome_def Let_def generateInitialPrices_length CANDLE_INIT_def)
qed

text \<open>
  Claim C3, amended. A reset returns the balance to 100, the shares to 0, the timer to
  60, the phase to waiting-to-start and the drift to its initial value 0.001, and
  replaces the series by a fresh one from the startup seeding rule (start price 100,
  seeding drift 0.001 and volatility 0.01). The fresh series has 10 prices when the
  line chart is selected, as at startup (with the same draws it is the startup series),
  and 50 when the candle chart is selected.
\<close>

theorem resetToHome_fields:
  "balance (resetToHome s rnd) = 100
   \<and> portfolio (resetToHome s rnd) = 0
   \<and> timeLeft (resetToHome s rnd) = 60
   \<and> is_WaitingToStart (resetToHome s rnd)
   \<and> mu (resetToHome s rnd) = 0.001
   \<and> balance (resetToHome s rnd) = balance (initial_state rnd)
   \<and> portfolio (resetToHome s rnd) = portfolio (initial_state rnd)
   \<and> timeLeft (resetToHome s rnd) = timeLeft (initial_state rnd)
   \<and> mu (resetToHome s rnd) = mu (initial_state rnd)
   \<and> prices (resetToHome s rnd) =
        generateInitialPrices (if selectedChart s = ''candle'' then 50 else 10) 100 0.001 0.01 rnd
   \<and> prices (initial_state rnd) = generateInitialPrices 10 100 0.001 0.01 rnd
   \<and> hd (prices (resetToHome s rnd)) = 100
   \<and> length (prices (resetToHome s rnd)) = (if selectedChart s = ''candle'' then 50 else 10)
   \<and> (selectedChart s \<noteq> ''candle'' \<longrightarrow> prices (resetToHome s rnd) = prices (initial_state rnd))"
proof (intro conjI impI)
  show "balance (resetToHome s rnd) = 100" by (simp add: resetToHome_def Let_def)
  show "portfolio (resetToHome s rnd) = 0" by (simp add: resetToHome_def Let_def)
  show "timeLeft (resetToHome s rnd) = 60" by (simp add: resetToHome_def Let_def)
  show "is_WaitingToStart (resetToHome s rnd)"
    by (simp add: resetToHome_def Let_def is_WaitingToStart_def)
  show "mu (resetToHome s rnd) = 0.001" by (simp add: resetToHome_def Let_def)
  show "balance (resetToHome s rnd) = balance (initial_state rnd)"
    by (simp add: resetToHome_def Let_def initial_state_def)
  show "portfolio (resetToHome s rnd) = portfolio (initial_state rnd)"
    by (simp add: resetToHome_def Let_def initial_state_def)
  show "timeLeft (resetToHome s rnd) = timeLeft (initial_state rnd)"
    by (simp add: resetToHome_def Let_def initial_state_def)
  show "mu (resetToHome s rnd) = mu (initial_state rnd)"
    by (simp add: resetToHome_def Let_def initial_state_def)
  show p: "prices (resetToHome s rnd) =
        generateInitialPrices (if selectedChart s = ''candle'' then 50 else 10) 100 0.001 0.01 rnd"
    by (simp add: resetToHome_def Let_def CANDLE_INIT_def LINE_INIT_def)
  show i: "prices (initial_state rnd) = generateInitialPrices 10 100 0.001 0.01 rnd"
    by (simp add: initial_state_def LINE_INIT_def)
  show "hd (prices (resetToHome s rnd)) = 100"
    unfolding p by (rule generateInitialPrices_hd) simp
  show "length (prices (resetToHome s rnd)) = (if selectedChart s = ''candle'' then 50 else 10)"
    unfolding p by (simp add: generateInitialPrices_length)
  show "prices (resetToHome s rnd) = prices (initial_state rnd)" if "selectedChart s \<noteq> ''candle''"
    unfolding p i using that by simp
qed

theorem resetToHome_fields_witness:
  "selectedChart (trading_state 25 (3 / 4) 120) \<noteq> ''candle''
   \<and> balance (resetToHome (trading_state 25 (3 / 4) 120) mid_draws) = 100
   \<and> portfolio (resetToHome (trading_state 25 (3 / 4) 120) mid_draws) = 0
   \<and> timeLeft (resetToHome (trading_state 25 (3 / 4) 120) mid_draws) = 60
   \<and> is_WaitingToStart (resetToHome (trading_state 25 (3 / 4) 120) mid_draws)
   \<and> length (prices (resetToHome (trading_state 25 (3 / 4) 120) mid_draws)) = 10
   \<and> hd (prices (resetToHome (trading_state 25 (3 / 4) 120) mid_draws)) = 100
   \<and> prices (resetToHome (trading_state 25 (3 / 4) 120) mid_draws) = prices (initial_state mid_draws)"
proof -
  have a: "selectedChart (trading_state 25 (3 / 4) 120) \<noteq> ''candle''"
    by (simp add: trading_state_def initial_state_def)
  show ?thesis
    using a resetToHome_fields [of "trading_state 25 (3 / 4) 120" mid_draws]
    by (metis (no_types, lifting))
qed

section \<open>Reachable states\<close>


lemma timerFinish_succeeds:
  assumes "state_inv s"
  shows "\<exists>s'. timerFinish s = Inr s'"
proof -
  have pp: "positive_prices (prices s)" using assms by (simp add: state_inv_def)
  show ?thesis
    using lastPrice_positive [OF pp] by (simp add: timerFinish_def Let_def)
qed









section \<open>Rounding to the nearest double\<close>

text \<open>
  Rounding to the nearest integer with ties to even, the binade of a real, and from the two
  the facts about \<open>fl\<close> that the later proofs use: the error of a rounding, monotonicity,
  the doubles as fixed points, and the evaluation of \<open>fl\<close> at a given rational from its
  binade and the integer nearest to its scaled value.
\<close>

lemma round_even_cases:
  "round_even y = \<lfloor>y\<rfloor> \<or> round_even y = \<lfloor>y\<rfloor> + 1"
  by (simp add: round_even_def)

lemma round_even_error: "\<bar>of_int (round_even y) - y\<bar> \<le> 1 / 2"
proof -
  have "of_int \<lfloor>y\<rfloor> \<le> y" and "y < of_int \<lfloor>y\<rfloor> + 1" by linarith+
  then show ?thesis
    by (auto simp: round_even_def)
qed

lemma round_even_eqI:
  assumes "\<bar>y - of_int n\<bar> < 1 / 2"
  shows "round_even y = n"
proof -
  have e: "\<bar>of_int (round_even y) - y\<bar> \<le> 1 / 2" by (rule round_even_error)
  have "\<bar>(of_int (round_even y) :: real) - of_int n\<bar> < 1"
    using assms e by linarith
  then have "\<bar>round_even y - n\<bar> < 1"
    by (metis of_int_diff of_int_abs of_int_less_1_iff)
  then show ?thesis by simp
qed

lemma round_even_of_int [simp]: "round_even (of_int n) = n"
  by (rule round_even_eqI) simp

lemma round_even_tie:
  "round_even (of_int n + 1 / 2) = (if even n then n else n + 1)"
proof -
  have "\<lfloor>of_int n + 1 / 2 :: real\<rfloor> = n" by linarith
  then show ?thesis by (simp add: round_even_def)
qed

lemma round_even_mono:
  assumes "x \<le> y"
  shows "round_even x \<le> round_even y"
proof (cases "\<lfloor>x\<rfloor> = \<lfloor>y\<rfloor>")
  case True
  then show ?thesis
    using assms by (auto simp: round_even_def)
next
  case False
  then have "\<lfloor>x\<rfloor> + 1 \<le> \<lfloor>y\<rfloor>"
    using assms floor_mono [of x y] by linarith
  moreover have "round_even x \<le> \<lfloor>x\<rfloor> + 1" and "\<lfloor>y\<rfloor> \<le> round_even y"
    using round_even_cases [of x] round_even_cases [of y] by auto
  ultimately show ?thesis by linarith
qed

lemma round_even_minus: "round_even (- y) = - round_even y"
proof (cases "y \<in> \<int>")
  case True
  then obtain n where "y = of_int n" by (auto elim: Ints_cases)
  then show ?thesis by (metis of_int_minus round_even_of_int)
next
  case False
  define n where "n = \<lfloor>y\<rfloor>"
  define d where "d = y - of_int n"
  have "y \<noteq> of_int n" using False by auto
  then have b: "0 < d" "d < 1"
    unfolding d_def n_def by linarith+
  have f: "\<lfloor>- y\<rfloor> = - n - 1"
    using b unfolding d_def by (intro floor_unique) simp_all
  have g: "- y - of_int (- n - 1) = 1 - d"
    by (simp add: d_def)
  have p: "even (- n - 1) \<longleftrightarrow> odd n" by simp
  have l: "round_even y =
      (if d < 1 / 2 then n else if 1 / 2 < d then n + 1 else if even n then n else n + 1)"
    by (simp add: round_even_def n_def d_def)
  have r: "round_even (- y) =
      (if 1 - d < 1 / 2 then - n - 1 else if 1 / 2 < 1 - d then - n
       else if odd n then - n - 1 else - n)"
    unfolding round_even_def f g p by simp
  show ?thesis
    unfolding l r by (cases "d < 1 / 2"; cases "1 / 2 < d") auto
qed

lemma floor_log2_bounds:
  assumes "0 < a"
  shows "2 powi \<lfloor>log 2 a\<rfloor> \<le> a" and "a < 2 powi (\<lfloor>log 2 a\<rfloor> + 1)"
proof -
  have "2 powr real_of_int \<lfloor>log 2 a\<rfloor> \<le> a \<and> a < 2 powr real_of_int (\<lfloor>log 2 a\<rfloor> + 1)"
    using floor_log_eq_powr_iff [of a 2 "\<lfloor>log 2 a\<rfloor>"] assms by simp
  then show "2 powi \<lfloor>log 2 a\<rfloor> \<le> a" and "a < 2 powi (\<lfloor>log 2 a\<rfloor> + 1)"
    using powr_real_of_int' [of 2 "\<lfloor>log 2 a\<rfloor>"] powr_real_of_int' [of 2 "\<lfloor>log 2 a\<rfloor> + 1"]
    by simp_all
qed

lemma floor_log2_eqI:
  assumes "2 powi k \<le> a" and "a < 2 powi (k + 1)"
  shows "\<lfloor>log 2 a\<rfloor> = k"
proof -
  have "0 < (2::real) powi k" by simp
  then have "0 < a" using assms(1) by linarith
  moreover have "2 powr real_of_int k \<le> a \<and> a < 2 powr (real_of_int k + 1)"
    using assms powr_real_of_int' [of 2 k] powr_real_of_int' [of 2 "k + 1"] by simp
  ultimately show ?thesis
    using floor_log_eq_powr_iff [of a 2 k] by simp
qed

lemma binade_ge: "- 1022 \<le> binade x"
  by (simp add: binade_def)

lemma binade_minus: "binade (- x) = binade x"
  by (simp add: binade_def)

lemma binade_abs: "binade \<bar>x\<bar> = binade x"
  by (simp add: binade_def)

lemma binade_upper: "\<bar>x\<bar> < 2 powi (binade x + 1)"
proof (cases "x = 0")
  case True
  then show ?thesis by simp
next
  case False
  then have "\<bar>x\<bar> < 2 powi (\<lfloor>log 2 \<bar>x\<bar>\<rfloor> + 1)"
    by (intro floor_log2_bounds) simp
  also have "\<dots> \<le> 2 powi (binade x + 1)"
    using False by (intro power_int_increasing) (simp_all add: binade_def)
  finally show ?thesis .
qed

lemma binade_lower:
  assumes "2 powi (- 1022) \<le> \<bar>x\<bar>"
  shows "2 powi binade x \<le> \<bar>x\<bar>"
proof -
  have "(0::real) < 2 powi (- 1022)" by (rule zero_less_power_int) simp
  then have nz: "x \<noteq> 0" and pos: "0 < \<bar>x\<bar>" using assms by auto
  have "- 1022 \<le> \<lfloor>log 2 \<bar>x\<bar>\<rfloor>"
  proof (rule ccontr)
    assume "\<not> - 1022 \<le> \<lfloor>log 2 \<bar>x\<bar>\<rfloor>"
    then have "\<lfloor>log 2 \<bar>x\<bar>\<rfloor> + 1 \<le> - 1022" by linarith
    then have "(2::real) powi (\<lfloor>log 2 \<bar>x\<bar>\<rfloor> + 1) \<le> 2 powi (- 1022)"
      by (intro power_int_increasing) simp_all
    with floor_log2_bounds(2) [OF pos] assms show False by linarith
  qed
  then have "binade x = \<lfloor>log 2 \<bar>x\<bar>\<rfloor>"
    using nz by (simp add: binade_def)
  then show ?thesis
    using floor_log2_bounds(1) [OF pos] by simp
qed

lemma binade_eqI:
  assumes "2 powi e \<le> \<bar>x\<bar>" and "\<bar>x\<bar> < 2 powi (e + 1)" and "- 1022 \<le> e"
  shows "binade x = e"
proof -
  have "(0::real) < 2 powi e" by (rule zero_less_power_int) simp
  then have "0 < \<bar>x\<bar>" using assms(1) by linarith
  then have "x \<noteq> 0" by simp
  moreover have "\<lfloor>log 2 \<bar>x\<bar>\<rfloor> = e"
    using assms(1,2) by (rule floor_log2_eqI)
  ultimately show ?thesis
    using assms(3) by (simp add: binade_def)
qed

lemma binade_subnormal:
  assumes "\<bar>x\<bar> < 2 powi (- 1021)"
  shows "binade x = - 1022"
proof (cases "x = 0")
  case True
  then show ?thesis by (simp add: binade_def)
next
  case False
  then have pos: "0 < \<bar>x\<bar>" by simp
  have "\<lfloor>log 2 \<bar>x\<bar>\<rfloor> \<le> - 1022"
  proof (rule ccontr)
    assume "\<not> \<lfloor>log 2 \<bar>x\<bar>\<rfloor> \<le> - 1022"
    then have "- 1021 \<le> \<lfloor>log 2 \<bar>x\<bar>\<rfloor>" by linarith
    then have "(2::real) powi (- 1021) \<le> 2 powi \<lfloor>log 2 \<bar>x\<bar>\<rfloor>"
      by (intro power_int_increasing) simp_all
    with floor_log2_bounds(1) [OF pos] assms show False by linarith
  qed
  then show ?thesis using False by (simp add: binade_def)
qed

lemma binade_mono:
  assumes "\<bar>x\<bar> \<le> \<bar>y\<bar>"
  shows "binade x \<le> binade y"
proof (rule ccontr)
  assume "\<not> binade x \<le> binade y"
  then have lt: "binade y + 1 \<le> binade x" by simp
  then have "- 1022 < binade x" using binade_ge [of y] by linarith
  then have n: "x \<noteq> 0" and f: "binade x = \<lfloor>log 2 \<bar>x\<bar>\<rfloor>"
    by (auto simp: binade_def split: if_splits)
  have "(2::real) powi (binade y + 1) \<le> 2 powi binade x"
    using lt by (intro power_int_increasing) simp_all
  also have "\<dots> \<le> \<bar>x\<bar>"
    unfolding f using n by (intro floor_log2_bounds) simp
  finally show False
    using binade_upper [of y] assms by linarith
qed

lemma ulp_pos: "0 < ulp x"
  by (simp add: ulp_def)

lemma ulp_minus: "ulp (- x) = ulp x"
  by (simp add: ulp_def binade_minus)

lemma fl_minus: "fl (- x) = - fl x"
  by (simp add: fl_def ulp_minus round_even_minus)

lemma fl_0 [simp]: "fl 0 = 0"
  using round_even_of_int [of 0] by (simp add: fl_def)

lemma fl_error: "\<bar>fl x - x\<bar> \<le> ulp x / 2"
proof -
  have "fl x - x = (of_int (round_even (x / ulp x)) - x / ulp x) * ulp x"
    using ulp_pos [of x] by (simp add: fl_def left_diff_distrib)
  then have "\<bar>fl x - x\<bar> = \<bar>of_int (round_even (x / ulp x)) - x / ulp x\<bar> * ulp x"
    using ulp_pos [of x] by (simp add: abs_mult)
  also have "\<dots> \<le> 1 / 2 * ulp x"
    using ulp_pos [of x] round_even_error [of "x / ulp x"]
    by (intro mult_right_mono) simp_all
  finally show ?thesis by simp
qed

lemma fl_nonneg:
  assumes "0 \<le> x"
  shows "0 \<le> fl x"
proof -
  have "0 \<le> x / ulp x" using assms ulp_pos [of x] by simp
  then have "round_even 0 \<le> round_even (x / ulp x)" by (rule round_even_mono)
  then have "0 \<le> round_even (x / ulp x)"
    using round_even_of_int [of 0] by simp
  then show ?thesis
    using ulp_pos [of x] by (simp add: fl_def)
qed

lemma ulp_eq: "binade x = e \<Longrightarrow> ulp x = 2 powi (e - 52)"
  by (simp add: ulp_def)

lemma fl_eval:
  assumes "binade x = e" and "\<bar>x / 2 powi (e - 52) - of_int n\<bar> < 1 / 2"
  shows "fl x = of_int n * 2 powi (e - 52)"
  using assms round_even_eqI [of "x / 2 powi (e - 52)" n] by (simp add: fl_def ulp_eq)

lemma fl_eval_tie:
  assumes "binade x = e" and "x / 2 powi (e - 52) = of_int n + 1 / 2"
  shows "fl x = of_int (if even n then n else n + 1) * 2 powi (e - 52)"
  using assms round_even_tie [of n] by (simp add: fl_def ulp_eq)



lemma scaled_ge:
  assumes "2 powi (- 1022) \<le> \<bar>x\<bar>"
  shows "2 ^ 52 \<le> \<bar>x\<bar> / ulp x"
proof -
  have "2 ^ 52 * ulp x = 2 powi binade x"
    unfolding ulp_def by (simp add: power_int_diff)
  also have "\<dots> \<le> \<bar>x\<bar>" using assms by (rule binade_lower)
  finally show ?thesis
    using ulp_pos [of x] by (simp add: field_simps)
qed

lemma scaled_less: "\<bar>x\<bar> / ulp x < 2 ^ 53"
proof -
  have "2 ^ 53 * ulp x = 2 powi (binade x + 1)"
    unfolding ulp_def by (simp add: power_int_diff power_int_add)
  then show ?thesis
    using binade_upper [of x] ulp_pos [of x] by (simp add: field_simps)
qed

lemma fl_rel_error:
  assumes "2 powi (- 1022) \<le> \<bar>x\<bar>"
  shows "\<bar>fl x - x\<bar> \<le> \<bar>x\<bar> / 2 ^ 53"
proof -
  have "ulp x / 2 = 2 ^ 52 * ulp x / 2 ^ 53" by simp
  also have "\<dots> \<le> \<bar>x\<bar> / 2 ^ 53"
    using scaled_ge [OF assms] ulp_pos [of x] by (simp add: field_simps)
  finally show ?thesis
    using fl_error [of x] by linarith
qed

lemma fl_le_top:
  assumes "0 \<le> x"
  shows "fl x \<le> 2 powi (binade x + 1)"
proof -
  have "x / ulp x \<le> 2 ^ 53"
    using scaled_less [of x] assms by simp
  then have "round_even (x / ulp x) \<le> round_even (of_int (2 ^ 53))"
    by (intro round_even_mono) simp
  then have "round_even (x / ulp x) \<le> 2 ^ 53"
    unfolding round_even_of_int .
  then have "(of_int (round_even (x / ulp x)) :: real) \<le> 2 ^ 53"
    by (metis of_int_le_iff of_int_numeral of_int_power)
  then have "fl x \<le> 2 ^ 53 * ulp x"
    unfolding fl_def using ulp_pos [of x] by (intro mult_right_mono) simp_all
  also have "\<dots> = 2 powi (binade x + 1)"
    unfolding ulp_def by (simp add: power_int_diff power_int_add)
  finally show ?thesis .
qed

lemma fl_ge_bottom:
  assumes "2 powi (- 1022) \<le> x"
  shows "2 powi binade x \<le> fl x"
proof -
  have "(0::real) < 2 powi (- 1022)" by (rule zero_less_power_int) simp
  then have p: "0 \<le> x" "2 powi (- 1022) \<le> \<bar>x\<bar>" using assms by linarith+
  have "2 ^ 52 \<le> x / ulp x"
    using scaled_ge [OF p(2)] p(1) by simp
  then have "round_even (of_int (2 ^ 52)) \<le> round_even (x / ulp x)"
    by (intro round_even_mono) simp
  then have "2 ^ 52 \<le> round_even (x / ulp x)"
    unfolding round_even_of_int .
  then have "(2 ^ 52 :: real) \<le> of_int (round_even (x / ulp x))"
    by (metis of_int_le_iff of_int_numeral of_int_power)
  then have "2 ^ 52 * ulp x \<le> fl x"
    unfolding fl_def using ulp_pos [of x] by (intro mult_right_mono) simp_all
  moreover have "2 ^ 52 * ulp x = 2 powi binade x"
    unfolding ulp_def by (simp add: power_int_diff)
  ultimately show ?thesis by simp
qed

lemma fl_mono_nonneg:
  assumes "0 \<le> x" and "x \<le> y"
  shows "fl x \<le> fl y"
proof (cases "binade x = binade y")
  case True
  then have u: "ulp x = ulp y" by (simp add: ulp_def)
  have "x / ulp y \<le> y / ulp y"
    using assms ulp_pos [of y] by (simp add: divide_right_mono)
  then have "round_even (x / ulp y) \<le> round_even (y / ulp y)"
    by (rule round_even_mono)
  then show ?thesis
    unfolding fl_def u using ulp_pos [of y] by (intro mult_right_mono) simp_all
next
  case False
  have "binade x \<le> binade y"
    using assms by (intro binade_mono) simp
  with False have lt: "binade x + 1 \<le> binade y" by simp
  then have "- 1022 < binade y" using binade_ge [of x] by linarith
  then have "\<not> \<bar>y\<bar> < 2 powi (- 1021)"
    using binade_subnormal [of y] by auto
  moreover have "(2::real) powi (- 1022) \<le> 2 powi (- 1021)"
    by (intro power_int_increasing) simp_all
  ultimately have n: "2 powi (- 1022) \<le> y" using assms by simp
  have "fl x \<le> 2 powi (binade x + 1)" using assms(1) by (rule fl_le_top)
  also have "\<dots> \<le> 2 powi binade y"
    using lt by (intro power_int_increasing) simp_all
  also have "\<dots> \<le> fl y" using n by (rule fl_ge_bottom)
  finally show ?thesis .
qed

lemma fl_mono:
  assumes "x \<le> y"
  shows "fl x \<le> fl y"
proof (cases "0 \<le> x")
  case True
  then show ?thesis using assms by (rule fl_mono_nonneg)
next
  case neg: False
  show ?thesis
  proof (cases "y \<le> 0")
    case True
    have "fl (- y) \<le> fl (- x)"
      using True assms by (intro fl_mono_nonneg) simp_all
    then show ?thesis by (simp add: fl_minus)
  next
    case False
    have "0 \<le> fl (- x)" using neg by (intro fl_nonneg) simp
    moreover have "0 \<le> fl y" using False by (intro fl_nonneg) simp
    ultimately show ?thesis by (simp add: fl_minus)
  qed
qed

lemma fl_fixed:
  assumes "x = of_int m * 2 powi k" and "\<bar>m\<bar> < 2 ^ 53" and "- 1074 \<le> k"
  shows "fl x = x"
proof -
  have e: "binade x \<le> k + 52"
  proof (rule ccontr)
    assume "\<not> binade x \<le> k + 52"
    then have g: "k + 53 \<le> binade x" by simp
    then have "- 1022 < binade x" using assms(3) by linarith
    then have "\<not> \<bar>x\<bar> < 2 powi (- 1021)"
      using binade_subnormal [of x] by auto
    moreover have "(2::real) powi (- 1022) \<le> 2 powi (- 1021)"
      by (intro power_int_increasing) simp_all
    ultimately have "2 powi (- 1022) \<le> \<bar>x\<bar>" by simp
    then have "2 powi binade x \<le> \<bar>x\<bar>" by (rule binade_lower)
    moreover have "(2::real) powi (k + 53) \<le> 2 powi binade x"
      using g by (intro power_int_increasing) simp_all
    moreover have "\<bar>x\<bar> < 2 powi (k + 53)"
    proof -
      have "\<bar>real_of_int m\<bar> < 2 ^ 53"
        using assms(2) by (metis of_int_abs of_int_less_iff of_int_numeral of_int_power)
      then have "\<bar>x\<bar> < 2 ^ 53 * 2 powi k"
        unfolding assms(1) abs_mult by (simp add: mult_strict_right_mono)
      then show ?thesis by (simp add: power_int_add)
    qed
    ultimately show False by linarith
  qed
  define j where "j = nat (k + 52 - binade x)"
  have "2 powi k = 2 powi (int j + (binade x - 52))"
    using e by (simp add: j_def)
  also have "\<dots> = (2::real) ^ j * ulp x"
    unfolding ulp_def by (subst power_int_add) simp_all
  finally have p: "2 powi k = (2::real) ^ j * ulp x" .
  have "x = of_int m * ((2::real) ^ j * ulp x)"
    using assms(1) p by metis
  then have "x = of_int (m * 2 ^ j) * ulp x"
    by simp
  then have "x / ulp x = of_int (m * 2 ^ j)"
    using ulp_pos [of x] by (metis less_irrefl nonzero_eq_divide_eq)
  then have "round_even (x / ulp x) = m * 2 ^ j"
    by (metis round_even_of_int)
  then have "fl x = of_int (m * 2 ^ j) * ulp x"
    by (simp add: fl_def)
  then show ?thesis
    using \<open>x / ulp x = of_int (m * 2 ^ j)\<close> ulp_pos [of x]
    by (metis less_irrefl nonzero_divide_eq_eq)
qed

lemma fl_eqI:
  assumes "- 1022 \<le> e" and "2 powi e \<le> \<bar>x\<bar>" and "\<bar>x\<bar> < 2 powi (e + 1)"
    and "\<bar>x / 2 powi (e - 52) - of_int n\<bar> < 1 / 2"
  shows "fl x = of_int n * 2 powi (e - 52)"
  using binade_eqI [OF assms(2,3,1)] assms(4) by (rule fl_eval)

lemma round_even_scaled: "\<bar>round_even (x / ulp x)\<bar> \<le> 2 ^ 53"
proof -
  have b: "- (2 ^ 53) \<le> x / ulp x" "x / ulp x \<le> 2 ^ 53"
    using scaled_less [of x] ulp_pos [of x] by (simp_all add: abs_if field_simps split: if_splits)
  have "round_even (of_int (- (2 ^ 53))) \<le> round_even (x / ulp x)"
    using b(1) by (intro round_even_mono) simp
  moreover have "round_even (x / ulp x) \<le> round_even (of_int (2 ^ 53))"
    using b(2) by (intro round_even_mono) simp
  ultimately show ?thesis
    unfolding round_even_of_int by simp
qed

lemma fl_idem [simp]: "fl (fl x) = fl x"
proof -
  define M where "M = round_even (x / ulp x)"
  have f: "fl x = of_int M * 2 powi (binade x - 52)"
    by (simp add: fl_def M_def ulp_def)
  have k: "- 1074 \<le> binade x - 52" using binade_ge [of x] by simp
  show ?thesis
  proof (cases "\<bar>M\<bar> < 2 ^ 53")
    case True
    show ?thesis using f True k by (rule fl_fixed)
  next
    case False
    then have "\<bar>M\<bar> = 2 ^ 53"
      using round_even_scaled [of x] by (simp add: M_def)
    then consider "M = 2 ^ 53" | "M = - (2 ^ 53)" by (auto simp: abs_if split: if_splits)
    then show ?thesis
    proof cases
      case 1
      have "fl x = of_int 1 * 2 powi (binade x + 1)"
        unfolding f 1 by (simp add: power_int_diff power_int_add)
      then show ?thesis by (rule fl_fixed) (use k in simp_all)
    next
      case 2
      have "fl x = of_int (- 1) * 2 powi (binade x + 1)"
        unfolding f 2 by (simp add: power_int_diff power_int_add)
      then show ?thesis by (rule fl_fixed) (use k in simp_all)
    qed
  qed
qed

lemma fl_of_int:
  assumes "\<bar>n\<bar> < 2 ^ 53"
  shows "fl (of_int n) = of_int n"
  by (rule fl_fixed [of _ n 0]) (use assms in simp_all)

lemma fl_numeral [simp]: "numeral n < (2 ^ 53 :: int) \<Longrightarrow> fl (numeral n) = numeral n"
  using fl_of_int [of "numeral n"] by simp

lemma fl_1 [simp]: "fl 1 = 1"
  using fl_of_int [of 1] by simp


lemma fl_between:
  assumes "2 powi (- 1022) \<le> x"
  shows "x * (1 - 1 / 2 ^ 53) \<le> fl x" and "fl x \<le> x * (1 + 1 / 2 ^ 53)"
proof -
  have "(0::real) < 2 powi (- 1022)" by (rule zero_less_power_int) simp
  then have p: "0 < x" using assms by linarith
  then have "2 powi (- 1022) \<le> \<bar>x\<bar>" using assms by linarith
  then have "\<bar>fl x - x\<bar> \<le> \<bar>x\<bar> / 2 ^ 53" by (rule fl_rel_error)
  define d where "d = x / 2 ^ 53"
  then have "\<bar>fl x - x\<bar> \<le> d" using \<open>\<bar>fl x - x\<bar> \<le> \<bar>x\<bar> / 2 ^ 53\<close> p by simp
  then have b: "x - d \<le> fl x" "fl x \<le> x + d" by linarith+
  have e: "x * (1 - 1 / 2 ^ 53) = x - d" "x * (1 + 1 / 2 ^ 53) = x + d"
    by (simp_all add: algebra_simps d_def)
  show "x * (1 - 1 / 2 ^ 53) \<le> fl x" and "fl x \<le> x * (1 + 1 / 2 ^ 53)"
    unfolding e by (rule b)+
qed

lemma fl_between_crude:
  assumes "2 powi (- 1025) \<le> x"
  shows "x * (1 - 1 / 2 ^ 50) \<le> fl x" and "fl x \<le> x * (1 + 1 / 2 ^ 50)"
proof -
  have "(0::real) < 2 powi (- 1025)" by (rule zero_less_power_int) simp
  then have p: "0 < x" using assms by linarith
  define d where "d = x / 2 ^ 50"
  have "\<bar>fl x - x\<bar> \<le> x / 2 ^ 50"
  proof (cases "2 powi (- 1022) \<le> x")
    case True
    then have "2 powi (- 1022) \<le> \<bar>x\<bar>" using p by linarith
    then have "\<bar>fl x - x\<bar> \<le> \<bar>x\<bar> / 2 ^ 53" by (rule fl_rel_error)
    also have "\<dots> = x / 2 ^ 53" using p by simp
    also have "\<dots> \<le> x / 2 ^ 50"
      using p by (intro divide_left_mono) simp_all
    finally show ?thesis .
  next
    case False
    moreover have "(2::real) powi (- 1022) \<le> 2 powi (- 1021)"
      by (intro power_int_increasing) simp_all
    ultimately have "\<bar>x\<bar> < 2 powi (- 1021)" using p by linarith
    then have "binade x = - 1022" by (rule binade_subnormal)
    then have u: "ulp x = 2 powi (- 1074)" by (simp add: ulp_def)
    have "(2::real) powi (- 1074) / 2 = 2 powi (- 1025) / 2 ^ 50"
      using power_int_add [of "2::real" "- 1025" "- 49"] by (simp add: power_int_minus field_simps)
    also have "\<dots> \<le> x / 2 ^ 50"
      using assms by (intro divide_right_mono) simp_all
    finally show ?thesis
      using fl_error [of x] unfolding u by linarith
  qed
  then have "\<bar>fl x - x\<bar> \<le> d" by (simp add: d_def)
  then have b: "x - d \<le> fl x" "fl x \<le> x + d" by linarith+
  have e: "x * (1 - 1 / 2 ^ 50) = x - d" "x * (1 + 1 / 2 ^ 50) = x + d"
    by (simp_all add: algebra_simps d_def)
  show "x * (1 - 1 / 2 ^ 50) \<le> fl x" and "fl x \<le> x * (1 + 1 / 2 ^ 50)"
    unfolding e by (rule b)+
qed

section \<open>The operators and the trade branches\<close>

lemma js_num_Inr: "\<bar>fl y\<bar> < 2 ^ 1024 \<Longrightarrow> js_num y = Inr (fl y)"
  by (simp add: js_num_def)

lemma js_ops_Inr:
  "js_add (Inr x) (Inr y) = js_num (x + y)"
  "js_sub (Inr x) (Inr y) = js_num (x - y)"
  "js_mul (Inr x) (Inr y) = js_num (x * y)"
  "y \<noteq> 0 \<Longrightarrow> js_div (Inr x) (Inr y) = js_num (x / y)"
  by (simp_all add: js_add_def js_sub_def js_mul_def js_div_def)

lemma js_num_eqI:
  assumes "- 1022 \<le> e" and "2 powi e \<le> \<bar>y\<bar>" and "\<bar>y\<bar> < 2 powi (e + 1)"
    and "\<bar>y / 2 powi (e - 52) - of_int n\<bar> < 1 / 2"
    and "of_int n * 2 powi (e - 52) = v" and "\<bar>v\<bar> < 2 ^ 1024"
  shows "js_num y = Inr v"
  using fl_eqI [OF assms(1-4)] assms(5,6) by (simp add: js_num_def)

lemma js_num_fixedI:
  assumes "y = of_int m * 2 powi k" and "\<bar>m\<bar> < 2 ^ 53" and "- 1074 \<le> k" and "\<bar>y\<bar> < 2 ^ 1024"
  shows "js_num y = Inr y"
  using fl_fixed [OF assms(1-3)] assms(4) by (simp add: js_num_def)

lemma js_add_eqI: "js_num (x + y) = Inr v \<Longrightarrow> js_add (Inr x) (Inr y) = Inr v"
  and js_sub_eqI: "js_num (x - y) = Inr v \<Longrightarrow> js_sub (Inr x) (Inr y) = Inr v"
  and js_mul_eqI: "js_num (x * y) = Inr v \<Longrightarrow> js_mul (Inr x) (Inr y) = Inr v"
  and js_div_eqI: "y \<noteq> 0 \<Longrightarrow> js_num (x / y) = Inr v \<Longrightarrow> js_div (Inr x) (Inr y) = Inr v"
  by (simp_all add: js_ops_Inr)

lemma handleClick_dbl_buy:
  assumes "is_Running s" and "\<not> showSettings s" and "\<not> showShop s" and "buy_side_dbl e"
    and "10 \<le> balance s" and "lastPrice (prices s) = Inr price"
    and "js_div (Inr (purchasePercent s)) (Inr 100) = Inr q"
    and "js_mul (Inr (balance s)) (Inr q) = Inr c"
    and "js_div (Inr c) (Inr price) = Inr amount"
    and "js_mul (Inr amount) (Inr price) = Inr spent"
    and "js_sub (Inr (balance s)) (Inr spent) = Inr b"
    and "js_add (Inr (portfolio s)) (Inr amount) = Inr p"
  shows "handleClick_dbl s e = Inr (s\<lparr>balance := b, portfolio := p\<rparr>)"
  using assms by (simp add: handleClick_dbl_def buy_side_dbl_def is_Running_def Let_def)

lemma handleClick_dbl_sell:
  assumes "is_Running s" and "\<not> showSettings s" and "\<not> showShop s" and "\<not> buy_side_dbl e"
    and "0 < portfolio s" and "lastPrice (prices s) = Inr price"
    and "js_mul (Inr (portfolio s)) (Inr price) = Inr earned"
    and "js_add (Inr (balance s)) (Inr earned) = Inr b"
  shows "handleClick_dbl s e = Inr (s\<lparr>balance := b, portfolio := 0\<rparr>)"
  using assms by (simp add: handleClick_dbl_def buy_side_dbl_def is_Running_def Let_def)

lemma click_sides_dbl: "buy_side_dbl right_click" "\<not> buy_side_dbl left_click"
  by (simp_all add: buy_side_dbl_def right_click_def left_click_def)

lemma js_num_tieI:
  assumes "- 1022 \<le> e" and "2 powi e \<le> \<bar>y\<bar>" and "\<bar>y\<bar> < 2 powi (e + 1)"
    and "y / 2 powi (e - 52) = of_int n + 1 / 2"
    and "of_int (if even n then n else n + 1) * 2 powi (e - 52) = v" and "\<bar>v\<bar> < 2 ^ 1024"
  shows "js_num y = Inr v"
  using fl_eval_tie [OF binade_eqI [OF assms(2,3,1)] assms(4)] assms(5,6)
  by (simp add: js_num_def)

subsection \<open>Results that are finite\<close>

lemma js_num_Inr_iff: "js_num y = Inr v \<longleftrightarrow> v = fl y \<and> \<bar>fl y\<bar> < 2 ^ 1024"
  by (auto simp: js_num_def)

lemma js_add_Inr_iff:
  "js_add a b = Inr v \<longleftrightarrow> (\<exists>x y. a = Inr x \<and> b = Inr y \<and> js_num (x + y) = Inr v)"
  by (cases a; cases b) (simp_all add: js_add_def)

lemma js_sub_Inr_iff:
  "js_sub a b = Inr v \<longleftrightarrow> (\<exists>x y. a = Inr x \<and> b = Inr y \<and> js_num (x - y) = Inr v)"
  by (cases a; cases b) (simp_all add: js_sub_def)

lemma js_mul_Inr_iff:
  "js_mul a b = Inr v \<longleftrightarrow> (\<exists>x y. a = Inr x \<and> b = Inr y \<and> js_num (x * y) = Inr v)"
  by (cases a; cases b) (simp_all add: js_mul_def)

lemma js_div_Inr_iff:
  "js_div a b = Inr v \<longleftrightarrow>
     (\<exists>x y. a = Inr x \<and> b = Inr y \<and> y \<noteq> 0 \<and> js_num (x / y) = Inr v)"
  by (cases a; cases b) (auto simp: js_div_def)

lemma lastPrice_Inr_iff: "lastPrice ps = Inr p \<longleftrightarrow> ps \<noteq> [] \<and> p = last ps"
  by (cases ps) (auto simp: lastPrice_def)

lemma handleClick_dbl_buy_inv:
  assumes "is_Running s" and "\<not> showSettings s" and "\<not> showShop s" and "buy_side_dbl e"
    and "10 \<le> balance s" and "handleClick_dbl s e = Inr s'"
  shows "prices s \<noteq> [] \<and> last (prices s) \<noteq> 0
    \<and> s' = s\<lparr>balance := fl (balance s - buy_spent s),
               portfolio := fl (portfolio s + buy_amount s)\<rparr>"
proof -
  define amount where "amount =
    js_div (js_mul (Inr (balance s)) (js_div (Inr (purchasePercent s)) (Inr 100)))
      (lastPrice (prices s))"
  define spent where "spent = js_mul amount (lastPrice (prices s))"
  have h: "handleClick_dbl s e =
      (case js_sub (Inr (balance s)) spent of
         Inl err \<Rightarrow> Inl err
       | Inr b \<Rightarrow>
           (case js_add (Inr (portfolio s)) amount of
              Inl err \<Rightarrow> Inl err
            | Inr p \<Rightarrow> Inr (s\<lparr>balance := b, portfolio := p\<rparr>)))"
    unfolding amount_def spent_def using assms(1-5)
    by (simp add: handleClick_dbl_def buy_side_dbl_def is_Running_def Let_def)
  obtain b p where b: "js_sub (Inr (balance s)) spent = Inr b"
    and p: "js_add (Inr (portfolio s)) amount = Inr p"
    and s': "s' = s\<lparr>balance := b, portfolio := p\<rparr>"
    using assms(6) unfolding h by (auto split: sum.splits)
  obtain sp where sp: "spent = Inr sp" and b2: "b = fl (balance s - sp)"
    using b by (auto simp: js_sub_Inr_iff js_num_Inr_iff)
  obtain a where a: "amount = Inr a" and p2: "p = fl (portfolio s + a)"
    using p by (auto simp: js_add_Inr_iff js_num_Inr_iff)
  obtain price where pr: "lastPrice (prices s) = Inr price" and sp2: "sp = fl (a * price)"
    using sp a unfolding spent_def by (auto simp: js_mul_Inr_iff js_num_Inr_iff)
  obtain c where c: "js_mul (Inr (balance s)) (js_div (Inr (purchasePercent s)) (Inr 100)) = Inr c"
    and nz: "price \<noteq> 0" and a2: "a = fl (c / price)"
    using a pr unfolding amount_def by (auto simp: js_div_Inr_iff js_num_Inr_iff)
  obtain q where q: "js_div (Inr (purchasePercent s)) (Inr 100) = Inr q"
    and c2: "c = fl (balance s * q)"
    using c by (auto simp: js_mul_Inr_iff js_num_Inr_iff)
  have q2: "q = fl (purchasePercent s / 100)"
    using q by (auto simp: js_div_Inr_iff js_num_Inr_iff)
  have l: "prices s \<noteq> []" "price = last (prices s)"
    using pr by (simp_all add: lastPrice_Inr_iff)
  have "a = buy_amount s"
    unfolding buy_amount_def a2 c2 q2 l(2) ..
  moreover have "sp = buy_spent s"
    unfolding buy_spent_def sp2 \<open>a = buy_amount s\<close> l(2) ..
  ultimately show ?thesis
    using l nz s' b2 p2 by simp
qed

lemma scale_upper: "v \<le> y * k \<Longrightarrow> y \<le> z \<Longrightarrow> 0 \<le> k \<Longrightarrow> v \<le> z * (k::real)"
  by (meson mult_right_mono order_trans)

lemma scale_lower: "y * k \<le> v \<Longrightarrow> z \<le> y \<Longrightarrow> 0 \<le> k \<Longrightarrow> z * (k::real) \<le> v"
  by (meson mult_right_mono order_trans)

lemma tiny_powers:
  "(2::real) powi (- 1022) \<le> 1 / 16" "(2::real) powi (- 1025) * 2 ^ 1024 = 1 / 2"
proof -
  have "(2::real) powi (- 1022) \<le> 2 powi (- 4)"
    by (intro power_int_increasing) simp_all
  then show "(2::real) powi (- 1022) \<le> 1 / 16" by simp
  have "(2::real) powi (- 1025) * 2 powi 1024 = 2 powi (- 1)"
    by (subst power_int_add [symmetric]) simp_all
  then show "(2::real) powi (- 1025) * 2 ^ 1024 = 1 / 2" by simp
qed

lemma buy_spent_close:
  assumes "10 \<le> balance s" and "10 \<le> purchasePercent s" and "purchasePercent s \<le> 100"
    and "0 < last (prices s)" and "last (prices s) < 2 ^ 1024"
  shows "balance s * (purchasePercent s / 100) * (1 - 1 / 2 ^ 49) \<le> buy_spent s"
    and "buy_spent s \<le> balance s * (purchasePercent s / 100) * (1 + 1 / 2 ^ 49)"
    and "0 < buy_amount s"
proof -
  define b where "b = balance s"
  define pr where "pr = last (prices s)"
  define x0 where "x0 = purchasePercent s / 100"
  define q where "q = fl x0"
  define y1 where "y1 = b * q"
  define c where "c = fl y1"
  define y2 where "y2 = c / pr"
  define a where "a = fl y2"
  define y3 where "y3 = a * pr"
  define sp where "sp = fl y3"
  define X where "X = b * x0"
  define lo where "lo = (1 - 1 / 2 ^ 53 :: real)"
  define hi where "hi = (1 + 1 / 2 ^ 53 :: real)"
  define lo' where "lo' = (1 - 1 / 2 ^ 50 :: real)"
  define hi' where "hi' = (1 + 1 / 2 ^ 50 :: real)"
  have k: "0 \<le> lo" "0 \<le> hi" "0 \<le> lo'" "0 \<le> hi'" "1 / 2 \<le> lo * lo" "1 / 2 \<le> lo'"
    "1 / 2 \<le> lo" "lo \<le> 1"
    by (simp_all add: lo_def hi_def lo'_def hi'_def)
  have am: "buy_amount s = a"
    by (simp add: buy_amount_def a_def y2_def c_def y1_def q_def x0_def b_def pr_def)
  have spe: "buy_spent s = sp"
    by (simp add: buy_spent_def am sp_def y3_def pr_def)
  have bp: "10 \<le> b" "0 < pr" "pr < 2 ^ 1024"
    using assms by (simp_all add: b_def pr_def)
  have x0: "1 / 10 \<le> x0" "x0 \<le> 1"
    using assms by (simp_all add: x0_def)
  have X1: "1 \<le> X"
  proof -
    have "10 * (1 / 10) \<le> b * x0"
      using bp(1) x0(1) by (intro mult_mono) simp_all
    then show ?thesis by (simp add: X_def)
  qed
  have "2 powi (- 1022) \<le> x0" using x0(1) tiny_powers(1) by linarith
  then have q: "x0 * lo \<le> q" "q \<le> x0 * hi"
    unfolding q_def lo_def hi_def by (rule fl_between)+
  have y1: "X * lo \<le> y1" "y1 \<le> X * hi"
  proof -
    have "b * (x0 * lo) \<le> b * q" "b * q \<le> b * (x0 * hi)"
      using q bp(1) by (simp_all add: mult_left_mono)
    then show "X * lo \<le> y1" "y1 \<le> X * hi"
      by (simp_all add: X_def y1_def mult.assoc)
  qed
  have "1 * lo \<le> X * lo" using X1 k(1) by (rule mult_right_mono)
  then have y1_half: "1 / 2 \<le> y1" using y1(1) k(7) by linarith
  then have "2 powi (- 1022) \<le> y1" using tiny_powers(1) by linarith
  then have c0: "y1 * lo \<le> c" "c \<le> y1 * hi"
    unfolding c_def lo_def hi_def by (rule fl_between)+
  have c: "X * lo * lo \<le> c" "c \<le> X * hi * hi"
    using scale_lower [OF c0(1) y1(1) k(1)] scale_upper [OF c0(2) y1(2) k(2)] by simp_all
  have "1 * (lo * lo) \<le> X * (lo * lo)"
    using X1 by (intro mult_right_mono) (simp_all add: k)
  then have c_half: "1 / 2 \<le> c" using c(1) k(5) by (simp add: mult.assoc)
  have y2_pos: "2 powi (- 1025) \<le> y2"
  proof -
    have "2 powi (- 1025) * pr \<le> 2 powi (- 1025) * 2 ^ 1024"
      using bp(3) by (intro mult_left_mono) simp_all
    then have "2 powi (- 1025) * pr \<le> c"
      using tiny_powers(2) c_half by linarith
    then show ?thesis
      using bp(2) by (simp add: y2_def pos_le_divide_eq)
  qed
  then have a0: "y2 * lo' \<le> a" "a \<le> y2 * hi'"
    unfolding a_def lo'_def hi'_def by (rule fl_between_crude)+
  have "(0::real) < 2 powi (- 1025)" by (rule zero_less_power_int) simp
  then have y2p: "0 < y2" using y2_pos by linarith
  then have "0 < y2 * lo'" using k(6) by (intro mult_pos_pos) simp_all
  then have a_pos: "0 < a" using a0(1) by linarith
  have y2pr: "y2 * pr = c" using bp(2) by (simp add: y2_def)
  have y3: "c * lo' \<le> y3" "y3 \<le> c * hi'"
  proof -
    have "y2 * lo' * pr \<le> a * pr" "a * pr \<le> y2 * hi' * pr"
      using a0 bp(2) by (simp_all add: mult_right_mono)
    then show "c * lo' \<le> y3" "y3 \<le> c * hi'"
      unfolding y3_def y2pr [symmetric] by (simp_all add: mult.assoc mult.commute mult.left_commute)
  qed
  have "1 / 2 * lo' \<le> c * lo'" using c_half k(3) by (rule mult_right_mono)
  then have "1 / 4 \<le> y3" using y3(1) k(6) by linarith
  then have "2 powi (- 1022) \<le> y3" using tiny_powers(1) by linarith
  then have sp0: "y3 * lo \<le> sp" "sp \<le> y3 * hi"
    unfolding sp_def lo_def hi_def by (rule fl_between)+
  have y3X: "X * lo * lo * lo' \<le> y3" "y3 \<le> X * hi * hi * hi'"
    using scale_lower [OF y3(1) c(1) k(3)] scale_upper [OF y3(2) c(2) k(4)] by simp_all
  have spX: "X * lo * lo * lo' * lo \<le> sp" "sp \<le> X * hi * hi * hi' * hi"
    using scale_lower [OF sp0(1) y3X(1) k(1)] scale_upper [OF sp0(2) y3X(2) k(2)] by simp_all
  have n: "1 - 1 / 2 ^ 49 \<le> lo * lo * lo' * lo" "hi * hi * hi' * hi \<le> 1 + 1 / 2 ^ 49"
    by (simp_all add: lo_def hi_def lo'_def hi'_def)
  have Xp: "0 \<le> X" using X1 by simp
  have "X * (1 - 1 / 2 ^ 49) \<le> X * (lo * lo * lo' * lo)"
    using n(1) Xp by (rule mult_left_mono)
  then have l: "X * (1 - 1 / 2 ^ 49) \<le> sp"
    using spX(1) by (simp add: mult.assoc)
  have "X * (hi * hi * hi' * hi) \<le> X * (1 + 1 / 2 ^ 49)"
    using n(2) Xp by (rule mult_left_mono)
  then have u: "sp \<le> X * (1 + 1 / 2 ^ 49)"
    using spX(2) by (simp add: mult.assoc)
  show "balance s * (purchasePercent s / 100) * (1 - 1 / 2 ^ 49) \<le> buy_spent s"
    using l unfolding spe X_def b_def x0_def .
  show "buy_spent s \<le> balance s * (purchasePercent s / 100) * (1 + 1 / 2 ^ 49)"
    using u unfolding spe X_def b_def x0_def .
  show "0 < buy_amount s" unfolding am by (rule a_pos)
qed

subsection \<open>Branches that change nothing, and the sell branch\<close>

lemma ulp_mono: "\<bar>x\<bar> \<le> \<bar>y\<bar> \<Longrightarrow> ulp x \<le> ulp y"
  unfolding ulp_def using binade_mono [of x y] by (intro power_int_increasing) simp_all

lemma ulp_le_rel:
  assumes "2 powi (- 1022) \<le> \<bar>x\<bar>"
  shows "ulp x \<le> \<bar>x\<bar> / 2 ^ 52"
  using scaled_ge [OF assms] ulp_pos [of x] by (simp add: field_simps)

lemma ten_normal: "10 \<le> x \<Longrightarrow> 2 powi (- 1022) \<le> \<bar>x::real\<bar>"
  using tiny_powers(1) by linarith

lemma handleClick_dbl_blocked:
  "showSettings s \<or> showShop s \<or> finished s \<Longrightarrow> handleClick_dbl s e = Inr s"
  by (simp add: handleClick_dbl_def)

lemma handleClick_dbl_buy_poor:
  "buy_side_dbl e \<Longrightarrow> initialClick s \<Longrightarrow> balance s < 10 \<Longrightarrow> handleClick_dbl s e = Inr s"
  by (simp add: handleClick_dbl_def buy_side_dbl_def Let_def)


lemma handleClick_dbl_sell_inv:
  assumes "is_Running s" and "\<not> showSettings s" and "\<not> showShop s" and "\<not> buy_side_dbl e"
    and "0 < portfolio s" and "handleClick_dbl s e = Inr s'"
  shows "prices s \<noteq> []
    \<and> s' = s\<lparr>balance := fl (balance s + fl (portfolio s * last (prices s))), portfolio := 0\<rparr>"
proof -
  have h: "handleClick_dbl s e =
      (case js_add (Inr (balance s)) (js_mul (Inr (portfolio s)) (lastPrice (prices s))) of
         Inl err \<Rightarrow> Inl err
       | Inr b \<Rightarrow> Inr (s\<lparr>balance := b, portfolio := 0\<rparr>))"
    using assms(1-5)
    by (simp add: handleClick_dbl_def buy_side_dbl_def is_Running_def Let_def)
  obtain b where b: "js_add (Inr (balance s)) (js_mul (Inr (portfolio s)) (lastPrice (prices s))) = Inr b"
    and s': "s' = s\<lparr>balance := b, portfolio := 0\<rparr>"
    using assms(6) unfolding h by (auto split: sum.splits)
  obtain ea where ea: "js_mul (Inr (portfolio s)) (lastPrice (prices s)) = Inr ea"
    and b2: "b = fl (balance s + ea)"
    using b by (auto simp: js_add_Inr_iff js_num_Inr_iff)
  obtain price where pr: "lastPrice (prices s) = Inr price" and ea2: "ea = fl (portfolio s * price)"
    using ea by (auto simp: js_mul_Inr_iff js_num_Inr_iff)
  have "prices s \<noteq> []" "price = last (prices s)"
    using pr by (simp_all add: lastPrice_Inr_iff)
  then show ?thesis
    using s' b2 ea2 by simp
qed


section \<open>Concrete trades\<close>





lemma half_buy_at_97:
  "handleClick_dbl sc_97 right_click =
     Inr sc_97_bought"
proof -
  have f: "balance sc_97 = 100" "purchasePercent sc_97 = 50" "portfolio sc_97 = 0"
    "lastPrice (prices sc_97) = Inr 97"
    by (simp_all add: trading_state_fields lastPrice_def)
  have r: "is_Running sc_97" "\<not> showSettings sc_97" "\<not> showShop sc_97" "10 \<le> balance sc_97"
    by (simp_all add: is_Running_def trading_state_fields)
  have q: "js_div (Inr (purchasePercent sc_97)) (Inr 100) = Inr (1 / 2)"
    unfolding f by (rule js_div_eqI, simp, rule js_num_eqI [of "- 1" _ "4503599627370496"]) simp_all
  have c: "js_mul (Inr (balance sc_97)) (Inr (1 / 2)) = Inr 50"
    unfolding f by (rule js_mul_eqI, rule js_num_eqI [of "5" _ "7036874417766400"]) simp_all
  have a: "js_div (Inr 50) (Inr 97) = Inr (290180388361501 / 562949953421312)"
    unfolding f by (rule js_div_eqI, simp, rule js_num_eqI [of "- 1" _ "4642886213784016"]) simp_all
  have sp: "js_mul (Inr (290180388361501 / 562949953421312)) (Inr 97) = Inr (7036874417766399 / 140737488355328)"
    unfolding f by (rule js_mul_eqI, rule js_num_eqI [of "5" _ "7036874417766399"]) simp_all
  have nb: "js_sub (Inr (balance sc_97)) (Inr (7036874417766399 / 140737488355328)) = Inr (7036874417766401 / 140737488355328)"
    unfolding f by (rule js_sub_eqI, rule js_num_eqI [of "5" _ "7036874417766401"]) simp_all
  have np: "js_add (Inr (portfolio sc_97)) (Inr (290180388361501 / 562949953421312)) = Inr (290180388361501 / 562949953421312)"
    unfolding f by (rule js_add_eqI, rule js_num_eqI [of "- 1" _ "4642886213784016"]) simp_all
  have buy: "handleClick_dbl sc_97 right_click = Inr sc_97_bought"
    by (rule handleClick_dbl_buy [OF r(1-3) click_sides_dbl(1) r(4) f(4) q c a sp nb np])
  show ?thesis by (rule buy)
qed


lemma all_in_buy_at_11:
  "handleClick_dbl sc_all_in right_click =
     Inr sc_all_in_bought"
proof -
  have f: "balance sc_all_in = 100" "purchasePercent sc_all_in = 100" "portfolio sc_all_in = 0"
    "lastPrice (prices sc_all_in) = Inr 11"
    by (simp_all add: trading_state_fields lastPrice_def)
  have r: "is_Running sc_all_in" "\<not> showSettings sc_all_in" "\<not> showShop sc_all_in" "10 \<le> balance sc_all_in"
    by (simp_all add: is_Running_def trading_state_fields)
  have q: "js_div (Inr (purchasePercent sc_all_in)) (Inr 100) = Inr 1"
    unfolding f by (rule js_div_eqI, simp, rule js_num_eqI [of "0" _ "4503599627370496"]) simp_all
  have c: "js_mul (Inr (balance sc_all_in)) (Inr 1) = Inr 100"
    unfolding f by (rule js_mul_eqI, rule js_num_eqI [of "6" _ "7036874417766400"]) simp_all
  have a: "js_div (Inr 100) (Inr 11) = Inr (5117726849284655 / 562949953421312)"
    unfolding f by (rule js_div_eqI, simp, rule js_num_eqI [of "3" _ "5117726849284655"]) simp_all
  have sp: "js_mul (Inr (5117726849284655 / 562949953421312)) (Inr 11) = Inr (7036874417766401 / 70368744177664)"
    unfolding f by (rule js_mul_eqI, rule js_num_eqI [of "6" _ "7036874417766401"]) simp_all
  have nb: "js_sub (Inr (balance sc_all_in)) (Inr (7036874417766401 / 70368744177664)) = Inr (- (1 / 70368744177664))"
    unfolding f by (rule js_sub_eqI, rule js_num_eqI [of "- 46" _ "- 4503599627370496"]) simp_all
  have np: "js_add (Inr (portfolio sc_all_in)) (Inr (5117726849284655 / 562949953421312)) = Inr (5117726849284655 / 562949953421312)"
    unfolding f by (rule js_add_eqI, rule js_num_eqI [of "3" _ "5117726849284655"]) simp_all
  have buy: "handleClick_dbl sc_all_in right_click = Inr sc_all_in_bought"
    by (rule handleClick_dbl_buy [OF r(1-3) click_sides_dbl(1) r(4) f(4) q c a sp nb np])
  show ?thesis by (rule buy)
qed

lemma ninety_buy_at_11:
  "handleClick_dbl sc_ninety right_click =
     Inr sc_ninety_bought"
proof -
  have f: "balance sc_ninety = 100" "purchasePercent sc_ninety = 90" "portfolio sc_ninety = 0"
    "lastPrice (prices sc_ninety) = Inr 11"
    by (simp_all add: trading_state_fields lastPrice_def)
  have r: "is_Running sc_ninety" "\<not> showSettings sc_ninety" "\<not> showShop sc_ninety" "10 \<le> balance sc_ninety"
    by (simp_all add: is_Running_def trading_state_fields)
  have q: "js_div (Inr (purchasePercent sc_ninety)) (Inr 100) = Inr (8106479329266893 / 9007199254740992)"
    unfolding f by (rule js_div_eqI, simp, rule js_num_eqI [of "- 1" _ "8106479329266893"]) simp_all
  have c: "js_mul (Inr (balance sc_ninety)) (Inr (8106479329266893 / 9007199254740992)) = Inr 90"
    unfolding f by (rule js_mul_eqI, rule js_num_eqI [of "6" _ "6333186975989760"]) simp_all
  have a: "js_div (Inr 90) (Inr 11) = Inr (4605954164356189 / 562949953421312)"
    unfolding f by (rule js_div_eqI, simp, rule js_num_eqI [of "3" _ "4605954164356189"]) simp_all
  have sp: "js_mul (Inr (4605954164356189 / 562949953421312)) (Inr 11) = Inr 90"
    unfolding f by (rule js_mul_eqI, rule js_num_eqI [of "6" _ "6333186975989760"]) simp_all
  have nb: "js_sub (Inr (balance sc_ninety)) (Inr 90) = Inr 10"
    unfolding f by (rule js_sub_eqI, rule js_num_eqI [of "3" _ "5629499534213120"]) simp_all
  have np: "js_add (Inr (portfolio sc_ninety)) (Inr (4605954164356189 / 562949953421312)) = Inr (4605954164356189 / 562949953421312)"
    unfolding f by (rule js_add_eqI, rule js_num_eqI [of "3" _ "4605954164356189"]) simp_all
  have buy: "handleClick_dbl sc_ninety right_click = Inr sc_ninety_bought"
    by (rule handleClick_dbl_buy [OF r(1-3) click_sides_dbl(1) r(4) f(4) q c a sp nb np])
  show ?thesis by (rule buy)
qed

lemma half_sell_at_100:
  "handleClick_dbl sc_100_bought left_click =
     Inr sc_100_sold"
proof -
  have f: "balance sc_100_bought = 50" "portfolio sc_100_bought = 1 / 2" "lastPrice (prices sc_100_bought) = Inr 100"
    by (simp_all add: trading_state_fields lastPrice_def)
  have r: "is_Running sc_100_bought" "\<not> showSettings sc_100_bought" "\<not> showShop sc_100_bought" "0 < portfolio sc_100_bought"
    by (simp_all add: is_Running_def trading_state_fields)
  have ea: "js_mul (Inr (portfolio sc_100_bought)) (Inr 100) = Inr 50"
    unfolding f by (rule js_mul_eqI, rule js_num_eqI [of "5" _ "7036874417766400"]) simp_all
  have nb: "js_add (Inr (balance sc_100_bought)) (Inr 50) = Inr 100"
    unfolding f by (rule js_add_eqI, rule js_num_eqI [of "6" _ "7036874417766400"]) simp_all
  have sell: "handleClick_dbl sc_100_bought left_click = Inr sc_100_sold"
    by (rule handleClick_dbl_sell [OF r(1-3) click_sides_dbl(2) r(4) f(3) ea nb])
  show ?thesis by (rule sell)
qed

lemma buy_amount_double [simp]: "fl (buy_amount s) = buy_amount s"
  by (simp add: buy_amount_def)

lemma buy_spent_range:
  assumes "10 \<le> balance s" and "10 \<le> purchasePercent s" and "purchasePercent s \<le> 100"
    and "0 < last (prices s)" and "last (prices s) < 2 ^ 1024"
  shows "0 \<le> buy_spent s" and "buy_spent s \<le> 2 * balance s"
proof -
  define X where "X = balance s * (purchasePercent s / 100)"
  have "0 \<le> purchasePercent s / 100" "purchasePercent s / 100 \<le> 1"
    using assms(2,3) by simp_all
  then have X: "0 \<le> X" "X \<le> balance s"
    using assms(1) unfolding X_def
    by (simp_all add: mult_left_le)
  have "X * (1 - 1 / 2 ^ 49) \<le> buy_spent s" "buy_spent s \<le> X * (1 + 1 / 2 ^ 49)"
    unfolding X_def using assms by (rule buy_spent_close)+
  moreover have "0 \<le> X * (1 - 1 / 2 ^ 49)"
    using X(1) by (intro mult_nonneg_nonneg) simp_all
  moreover have "X * (1 + 1 / 2 ^ 49) \<le> X * 2"
    using X(1) by (intro mult_left_mono) simp_all
  ultimately show "0 \<le> buy_spent s" and "buy_spent s \<le> 2 * balance s"
    using X(2) by linarith+
qed

section \<open>Cash under a trade and at the end of the session\<close>

lemma timerFinish_dbl_balance:
  assumes "timerFinish_dbl s = Inr s'"
  shows "balance s' = balance s
    \<or> (prices s \<noteq> [] \<and> balance s' = fl (balance s + fl (portfolio s * last (prices s))))"
proof (cases "\<not> running s \<or> timeLeft s > 0")
  case True
  then show ?thesis using assms by (simp add: timerFinish_dbl_def)
next
  case False
  define nbv where "nbv = js_add (Inr (balance s)) (js_mul (Inr (portfolio s)) (lastPrice (prices s)))"
  obtain nb where nb: "nbv = Inr nb" and b: "balance s' = nb"
    using assms False unfolding timerFinish_dbl_def Let_def nbv_def
    by (auto split: sum.splits if_splits)
  obtain ea where ea: "js_mul (Inr (portfolio s)) (lastPrice (prices s)) = Inr ea"
    and nb2: "nb = fl (balance s + ea)"
    using nb unfolding nbv_def by (auto simp: js_add_Inr_iff js_num_Inr_iff)
  obtain price where pr: "lastPrice (prices s) = Inr price" and ea2: "ea = fl (portfolio s * price)"
    using ea by (auto simp: js_mul_Inr_iff js_num_Inr_iff)
  have "prices s \<noteq> []" "price = last (prices s)"
    using pr by (simp_all add: lastPrice_Inr_iff)
  then show ?thesis using b nb2 ea2 by simp
qed

lemma credit_keeps_cash:
  assumes "is_double b" and "0 \<le> p" and "0 \<le> price"
  shows "b \<le> fl (b + fl (p * price))"
proof -
  have "0 \<le> fl (p * price)"
    using assms(2,3) by (intro fl_nonneg mult_nonneg_nonneg)
  then have "fl b \<le> fl (b + fl (p * price))"
    by (intro fl_mono) simp
  then show ?thesis using assms(1) by (simp add: is_double_def)
qed

lemma sell_keeps_cash:
  assumes "\<not> buy_side_dbl e" and "is_double (balance s)" and "prices s \<noteq> [] \<longrightarrow> 0 \<le> last (prices s)"
    and "handleClick_dbl s e = Inr s'"
  shows "balance s \<le> balance s'"
proof (cases "is_Running s \<and> \<not> showSettings s \<and> \<not> showShop s \<and> 0 < portfolio s")
  case True
  then have "prices s \<noteq> []
    \<and> s' = s\<lparr>balance := fl (balance s + fl (portfolio s * last (prices s))), portfolio := 0\<rparr>"
    using assms(1,4) by (intro handleClick_dbl_sell_inv) simp_all
  then show ?thesis
    using credit_keeps_cash [OF assms(2), of "portfolio s" "last (prices s)"] True assms(3)
    by simp
next
  case False
  have "handleClick_dbl s e = Inr s"
  proof (cases "showSettings s \<or> showShop s \<or> finished s")
    case True
    then show ?thesis by (rule handleClick_dbl_blocked)
  next
    case nb: False
    then show ?thesis
      using False assms(1)
      by (auto simp: handleClick_dbl_def buy_side_dbl_def is_Running_def Let_def)
  qed
  then show ?thesis using assms(4) by simp
qed

lemma buy_cash_bounds:
  assumes "is_Running s" and "\<not> showSettings s" and "\<not> showShop s" and "buy_side_dbl e"
    and "10 \<le> balance s" and "10 \<le> purchasePercent s" and "purchasePercent s \<le> 100"
    and "0 < last (prices s)" and "last (prices s) < 2 ^ 1024"
    and "handleClick_dbl s e = Inr s'"
  shows "- (balance s / 2 ^ 48) \<le> balance s'"
    and "purchasePercent s \<le> 90 \<Longrightarrow> 0 \<le> balance s'"
proof -
  define b where "b = balance s"
  define sp where "sp = buy_spent s"
  define X where "X = b * (purchasePercent s / 100)"
  have bal: "balance s' = fl (b - sp)"
    using handleClick_dbl_buy_inv [OF assms(1-5,10)] by (simp add: b_def sp_def)
  have up: "sp \<le> X * (1 + 1 / 2 ^ 49)"
    unfolding sp_def X_def b_def using assms(5-9) by (rule buy_spent_close)
  have range: "0 \<le> sp" "sp \<le> 2 * b"
    unfolding sp_def b_def using assms(5-9) by (rule buy_spent_range)+
  have b10: "10 \<le> b" using assms(5) by (simp add: b_def)
  have Xb: "0 \<le> X" "X \<le> b"
    using b10 assms(6,7) unfolding X_def by (simp_all add: mult_left_le)
  have "X * (1 + 1 / 2 ^ 49) = X + X / 2 ^ 49" by (simp add: algebra_simps)
  also have "\<dots> \<le> b + b / 2 ^ 49"
    using Xb by (intro add_mono divide_right_mono) simp_all
  finally have y: "- (b / 2 ^ 49) \<le> b - sp" using up by linarith
  show "- (balance s / 2 ^ 48) \<le> balance s'"
  proof (cases "0 \<le> b - sp")
    case True
    then have "0 \<le> fl (b - sp)" by (rule fl_nonneg)
    moreover have "- (b / 2 ^ 48) \<le> 0" using b10 by simp
    ultimately show ?thesis unfolding bal b_def [symmetric] by linarith
  next
    case False
    have "\<bar>b - sp\<bar> \<le> \<bar>b\<bar>" using range b10 by (simp add: abs_le_iff)
    then have "ulp (b - sp) \<le> ulp b" by (rule ulp_mono)
    also have "\<dots> \<le> \<bar>b\<bar> / 2 ^ 52" using b10 by (intro ulp_le_rel ten_normal)
    finally have "ulp (b - sp) / 2 \<le> b / 2 ^ 53" using b10 by simp
    then have "b - sp - b / 2 ^ 53 \<le> fl (b - sp)"
      using fl_error [of "b - sp"] by linarith
    moreover have "b / 2 ^ 49 + b / 2 ^ 53 \<le> b / 2 ^ 48"
      using b10 by simp
    ultimately show ?thesis
      using y unfolding bal b_def [symmetric] by linarith
  qed
  show "0 \<le> balance s'" if "purchasePercent s \<le> 90"
  proof -
    have "X \<le> b * (9 / 10)"
      using that b10 unfolding X_def by (intro mult_left_mono) simp_all
    then have "X * (1 + 1 / 2 ^ 49) \<le> b * (9 / 10) * (1 + 1 / 2 ^ 49)"
      by (intro mult_right_mono) simp_all
    also have "\<dots> \<le> b"
      using b10 by simp
    finally have "0 \<le> b - sp" using up by linarith
    then show ?thesis unfolding bal by (rule fl_nonneg)
  qed
qed



lemma timerFinish_dbl_no_profit:
  assumes "running s" and "timeLeft s \<le> 0" and "lastPrice (prices s) = Inr price"
    and "js_mul (Inr (portfolio s)) (Inr price) = Inr ea"
    and "js_add (Inr (balance s)) (Inr ea) = Inr nb"
    and "js_sub (Inr nb) (Inr 100) = Inr d"
    and "js_div (Inr d) (Inr 100) = Inr pct"
    and "\<not> pct > 0"
  shows "timerFinish_dbl s =
    Inr (s\<lparr>savedCoins := savedCoins s, balance := nb, portfolio := 0,
           running := False, finished := True\<rparr>)"
  using assms by (simp add: timerFinish_dbl_def Let_def)

lemma finish_at_100:
  "timerFinish_dbl sc_100_timed_out =
     Inr sc_100_finished"
proof -
  have f: "balance sc_100_timed_out = 50" "portfolio sc_100_timed_out = 1 / 2" "lastPrice (prices sc_100_timed_out) = Inr 100"
    by (simp_all add: trading_state_fields lastPrice_def)
  have r: "running sc_100_timed_out" "timeLeft sc_100_timed_out \<le> 0"
    by (simp_all add: trading_state_fields)
  have ea: "js_mul (Inr (portfolio sc_100_timed_out)) (Inr 100) = Inr 50"
    unfolding f by (rule js_mul_eqI, rule js_num_eqI [of "5" _ "7036874417766400"]) simp_all
  have nb: "js_add (Inr (balance sc_100_timed_out)) (Inr 50) = Inr 100"
    unfolding f by (rule js_add_eqI, rule js_num_eqI [of "6" _ "7036874417766400"]) simp_all
  have d: "js_sub (Inr 100) (Inr 100) = Inr 0"
    unfolding f by (rule js_sub_eqI) (simp_all add: js_num_def)
  have pct: "js_div (Inr 0) (Inr 100) = Inr 0"
    unfolding f by (rule js_div_eqI) (simp_all add: js_num_def)
  show ?thesis
    by (rule timerFinish_dbl_no_profit [OF r f(3) ea nb d pct]) simp
qed

lemma buy_spent_abs:
  assumes "10 \<le> balance s" and "10 \<le> purchasePercent s" and "purchasePercent s \<le> 100"
    and "0 < last (prices s)" and "last (prices s) < 2 ^ 1024"
  shows "\<bar>buy_spent s - balance s * (purchasePercent s / 100)\<bar>
           \<le> balance s * (purchasePercent s / 100) / 2 ^ 49"
proof -
  define X where "X = balance s * (purchasePercent s / 100)"
  define d where "d = X / 2 ^ 49"
  have e: "X * (1 - 1 / 2 ^ 49) = X - d" "X * (1 + 1 / 2 ^ 49) = X + d"
    by (simp_all add: algebra_simps d_def)
  have "X * (1 - 1 / 2 ^ 49) \<le> buy_spent s" "buy_spent s \<le> X * (1 + 1 / 2 ^ 49)"
    unfolding X_def using assms by (rule buy_spent_close)+
  then have "X - d \<le> buy_spent s" "buy_spent s \<le> X + d"
    unfolding e .
  then have "\<bar>buy_spent s - X\<bar> \<le> d" by linarith
  then show ?thesis unfolding d_def X_def .
qed

section \<open>The price step on the second layer\<close>

lemma fl_m1 [simp]: "fl (- 1) = - 1"
  by (simp add: fl_minus)



lemma js_pow_Inr_iff:
  "js_pow f a n = Inr v \<longleftrightarrow> (\<exists>x. a = Inr x \<and> js_num (engine_pow f x n) = Inr v)"
  by (cases a) (simp_all add: js_pow_def)

lemma Math_sqrt_1 [simp]: "Math_sqrt (Inr 1) = Inr 1"
  by (simp add: Math_sqrt_def js_num_def)






lemma js_num_0 [simp]: "js_num 0 = Inr 0"
  by (simp add: js_num_def)

lemma js_num_1 [simp]: "js_num 1 = Inr 1"
  by (simp add: js_num_def)

lemma js_num_m1 [simp]: "js_num (- 1) = Inr (- 1)"
  by (simp add: js_num_def)

lemma exact_engine_simps [simp]:
  "engine_exp exact_engine = exp" "engine_pow exact_engine x n = x ^ n"
  by (simp_all add: exact_engine_def)





section \<open>The moving average on the second layer\<close>

lemma sma_loop_invariant:
  assumes "1 \<le> w" and "i \<le> length data"
    and "sm = sma_sum data w i"
    and "out = map (\<lambda>j. js_div (sma_sum data w (j + w)) (Inr (real w))) [0 ..< Suc i - w]"
  shows "sma_loop data w i sm out =
           map (\<lambda>j. js_div (sma_sum data w (j + w)) (Inr (real w))) [0 ..< Suc (length data) - w]"
  using assms
proof (induction data w i sm out rule: sma_loop.induct)
  case (1 data window i sm out)
  show ?case
  proof (cases "i < length data")
    case False
    with "1.prems" have "i = length data" by simp
    with "1.prems" show ?thesis by (subst sma_loop.simps) simp
  next
    case True
    define sm2 where "sm2 = (if window \<le> i
        then js_sub (js_add sm (Inr (data ! i))) (Inr (data ! (i - window)))
        else js_add sm (Inr (data ! i)))"
    define out2 where "out2 = (if window - 1 \<le> i then out @ [js_div sm2 (Inr (real window))] else out)"
    have step: "sma_loop data window i sm out = sma_loop data window (i + 1) sm2 out2"
      using True by (subst sma_loop.simps) (simp add: sm2_def out2_def Let_def)
    have sm2: "sm2 = sma_sum data window (i + 1)"
      using "1.prems" by (simp add: sm2_def)
    have out2: "out2 = map (\<lambda>j. js_div (sma_sum data window (j + window)) (Inr (real window)))
                         [0 ..< Suc (i + 1) - window]"
    proof (cases "window - 1 \<le> i")
      case False
      then have "Suc (i + 1) - window = 0" and "Suc i - window = 0" by simp_all
      with False "1.prems" show ?thesis by (simp add: out2_def)
    next
      case w: True
      have a: "Suc (i + 1) - window = Suc (Suc i - window)"
        using w "1.prems" by simp
      have b: "Suc i - window + window = i + 1"
        using w "1.prems" by simp
      show ?thesis
        unfolding a using w "1.prems" sm2 b by (simp add: out2_def)
    qed
    have "sma_loop data window (i + 1) sm2 out2 =
            map (\<lambda>j. js_div (sma_sum data window (j + window)) (Inr (real window)))
              [0 ..< Suc (length data) - window]"
      unfolding sm2_def out2_def
    proof (rule "1.IH" [OF True refl refl refl])
      show "1 \<le> window" by fact
      show "i + 1 \<le> length data" using True by simp
    qed (use sm2 [unfolded sm2_def] out2 [unfolded out2_def sm2_def] in blast)+
    with step show ?thesis by simp
  qed
qed

lemma sma_sums:
  assumes "1 \<le> w" and "w \<le> length data"
  shows "sma data w = map (\<lambda>j. js_div (sma_sum data w (j + w)) (Inr (real w)))
                        [0 ..< length data - w + 1]"
  using assms sma_loop_invariant [of w 0 data "Inr 0" "[]"]
  by (simp add: sma_def Suc_diff_le)

lemma sma_short: "length data < w \<Longrightarrow> sma data w = []"
  by (simp add: sma_def)

lemma sma_length: "1 \<le> w \<Longrightarrow> w \<le> length data \<Longrightarrow> length (sma data w) = length data - w + 1"
  by (simp add: sma_sums)

lemma fl_bounded:
  assumes "\<bar>x\<bar> \<le> 2 ^ 1023"
  shows "\<bar>fl x\<bar> < 2 ^ 1024"
proof -
  define B :: real where "B = 2 ^ 1023"
  have t: "fl B = B"
    unfolding B_def by (rule fl_fixed [of _ 1 1023]) simp_all
  have x: "x \<le> B" "- B \<le> x" using assms unfolding B_def by linarith+
  have "fl x \<le> fl B" using x(1) by (rule fl_mono)
  moreover have "fl (- B) \<le> fl x" using x(2) by (rule fl_mono)
  ultimately have "\<bar>fl x\<bar> \<le> B" unfolding fl_minus t by linarith
  moreover have "B < 2 ^ 1024" unfolding B_def by (rule power_strict_increasing) simp_all
  ultimately show ?thesis by linarith
qed

lemma grid_sum:
  assumes "K \<subseteq> {..< length ms}"
  shows "(\<Sum>j\<in>K. on_grid k ms ! j) = of_int (\<Sum>j\<in>K. ms ! j) * 2 powi k"
    and "\<bar>\<Sum>j\<in>K. ms ! j\<bar> \<le> (\<Sum>m\<leftarrow>ms. \<bar>m\<bar>)"
proof -
  have "(\<Sum>j\<in>K. on_grid k ms ! j) = (\<Sum>j\<in>K. of_int (ms ! j) * 2 powi k)"
    using assms by (intro sum.cong) (auto simp: on_grid_def)
  then show "(\<Sum>j\<in>K. on_grid k ms ! j) = of_int (\<Sum>j\<in>K. ms ! j) * 2 powi k"
    by (simp add: sum_distrib_right)
  have f: "finite K" using assms by (rule finite_subset) simp
  have "\<bar>\<Sum>j\<in>K. ms ! j\<bar> \<le> (\<Sum>j\<in>K. \<bar>ms ! j\<bar>)" by (rule sum_abs)
  also have "\<dots> \<le> (\<Sum>j\<in>{..< length ms}. \<bar>ms ! j\<bar>)"
    using assms by (intro sum_mono2) simp_all
  also have "\<dots> = (\<Sum>m\<leftarrow>map abs ms. m)"
    using sum_list_sum_nth [of "map abs ms"] by (simp add: atLeast0LessThan)
  finally show "\<bar>\<Sum>j\<in>K. ms ! j\<bar> \<le> (\<Sum>m\<leftarrow>ms. \<bar>m\<bar>)" by simp
qed

lemma grid_sum_double:
  assumes "K \<subseteq> {..< length ms}" and "(\<Sum>m\<leftarrow>ms. \<bar>m\<bar>) < 2 ^ 53"
    and "- 1074 \<le> k" and "k \<le> 970"
  shows "js_num (\<Sum>j\<in>K. on_grid k ms ! j) = Inr (\<Sum>j\<in>K. on_grid k ms ! j)"
    and "\<bar>\<Sum>j\<in>K. on_grid k ms ! j\<bar> \<le> 2 ^ 1023"
proof -
  let ?m = "\<Sum>j\<in>K. ms ! j"
  have e: "(\<Sum>j\<in>K. on_grid k ms ! j) = of_int ?m * 2 powi k"
    and m: "\<bar>?m\<bar> < 2 ^ 53"
    using grid_sum(1) [OF assms(1), of k] grid_sum(2) [OF assms(1)] assms(2) by simp_all
  have "of_int \<bar>?m\<bar> \<le> (of_int (2 ^ 53) :: real)" using m by (intro of_int_le_iff [THEN iffD2]) simp
  then have "\<bar>of_int ?m :: real\<bar> \<le> 2 ^ 53" by (simp only: of_int_abs of_int_power of_int_numeral)
  moreover have "(2 :: real) powi k \<le> 2 powi 970" using assms(4) by (intro power_int_increasing) simp_all
  ultimately have "\<bar>of_int ?m :: real\<bar> * 2 powi k \<le> 2 ^ 53 * 2 powi 970"
    by (intro mult_mono) simp_all
  also have "\<dots> = (2 :: real) ^ 1023" by (simp flip: power_add)
  finally show b: "\<bar>\<Sum>j\<in>K. on_grid k ms ! j\<bar> \<le> 2 ^ 1023"
    unfolding e by (simp add: abs_mult)
  have "\<bar>\<Sum>j\<in>K. on_grid k ms ! j\<bar> < 2 ^ 1024" using b by (rule order_le_less_trans) simp
  then show "js_num (\<Sum>j\<in>K. on_grid k ms ! j) = Inr (\<Sum>j\<in>K. on_grid k ms ! j)"
    using e m assms(3) by (intro js_num_fixedI [of _ ?m k]) simp_all
qed

lemma sma_sum_exact:
  assumes "(\<Sum>m\<leftarrow>ms. \<bar>m\<bar>) < 2 ^ 53" and "- 1074 \<le> k" and "k \<le> 970"
    and "1 \<le> w" and "i \<le> length ms"
  shows "sma_sum (on_grid k ms) w i = Inr (running_sum (on_grid k ms) w i)"
  using assms(5)
proof (induction i)
  case 0
  show ?case by (simp add: running_sum_0)
next
  case (Suc i)
  let ?d = "on_grid k ms"
  have ih: "sma_sum ?d w i = Inr (running_sum ?d w i)" using Suc by simp
  have sub: "{i - w ..< Suc i} \<subseteq> {..< length ms}" using Suc.prems by auto
  have a: "running_sum ?d w i + ?d ! i = (\<Sum>j = i - w ..< Suc i. ?d ! j)"
    by (auto simp: running_sum_def)
  have add: "js_add (Inr (running_sum ?d w i)) (Inr (?d ! i)) = Inr (running_sum ?d w i + ?d ! i)"
    unfolding js_ops_Inr a by (rule grid_sum_double(1) [OF sub assms(1-3)])
  show ?case
  proof (cases "w \<le> i")
    case False
    then have "running_sum ?d w (Suc i) = running_sum ?d w i + ?d ! i"
      by (intro running_sum_grow) simp
    with False ih add show ?thesis by simp
  next
    case True
    have r: "running_sum ?d w (Suc i) = running_sum ?d w i + ?d ! i - ?d ! (i - w)"
      using True assms(4) by (rule running_sum_slide)
    have sub2: "{Suc i - w ..< Suc i} \<subseteq> {..< length ms}" using Suc.prems by auto
    have "js_num (running_sum ?d w (Suc i)) = Inr (running_sum ?d w (Suc i))"
      unfolding running_sum_def by (rule grid_sum_double(1) [OF sub2 assms(1-3)])
    then have "js_sub (Inr (running_sum ?d w i + ?d ! i)) (Inr (?d ! (i - w)))
                 = Inr (running_sum ?d w (Suc i))"
      unfolding js_ops_Inr r .
    with True ih add show ?thesis by simp
  qed
qed

lemma sma_exact:
  assumes "(\<Sum>m\<leftarrow>ms. \<bar>m\<bar>) < 2 ^ 53" and "- 1074 \<le> k" and "k \<le> 970"
    and "1 \<le> w" and "w \<le> length ms"
  shows "sma (on_grid k ms) w =
           map (\<lambda>i. Inr (fl (window_mean (on_grid k ms) w i))) [0 ..< length ms - w + 1]"
proof -
  let ?d = "on_grid k ms"
  have len: "length ?d = length ms" by (simp add: on_grid_def)
  have "js_div (sma_sum ?d w (j + w)) (Inr (real w)) = Inr (fl (window_mean ?d w j))"
    if j: "j < length ms - w + 1" for j
  proof -
    have jw: "j + w \<le> length ms" using j assms(5) by simp
    have s: "sma_sum ?d w (j + w) = Inr (running_sum ?d w (j + w))"
      using assms(1-4) jw by (rule sma_sum_exact)
    have "j + w = Suc (j + w - 1)" using assms(4) by simp
    moreover have "running_sum ?d w (Suc (j + w - 1)) / real w = window_mean ?d w (Suc (j + w - 1) - w)"
      using assms(4) jw by (intro window_mean_running_sum) (simp_all add: len)
    ultimately have m: "running_sum ?d w (j + w) / real w = window_mean ?d w j"
      using assms(4) by simp
    have sub: "{j + w - w ..< j + w} \<subseteq> {..< length ms}" using jw by auto
    have "\<bar>running_sum ?d w (j + w)\<bar> \<le> 2 ^ 1023"
      unfolding running_sum_def by (rule grid_sum_double(2) [OF sub assms(1-3)])
    moreover have "\<bar>running_sum ?d w (j + w) / real w\<bar> \<le> \<bar>running_sum ?d w (j + w)\<bar>"
    proof -
      have "\<bar>running_sum ?d w (j + w)\<bar> / real w \<le> \<bar>running_sum ?d w (j + w)\<bar> / 1"
        using assms(4) by (intro divide_left_mono) simp_all
      then show ?thesis by simp
    qed
    ultimately have "\<bar>window_mean ?d w j\<bar> \<le> 2 ^ 1023" unfolding m [symmetric] by linarith
    then have "\<bar>fl (window_mean ?d w j)\<bar> < 2 ^ 1024" by (rule fl_bounded)
    then have "js_num (window_mean ?d w j) = Inr (fl (window_mean ?d w j))" by (rule js_num_Inr)
    then show ?thesis
      unfolding s using assms(4) m by (simp add: js_ops_Inr)
  qed
  then show ?thesis
    using assms(4,5) by (simp add: sma_sums len del: upt_Suc)
qed

section \<open>A buy within finite magnitudes\<close>

lemma fl_power2: "fl (2 ^ n) = 2 ^ n"
  by (rule fl_fixed [of _ 1 "int n"]) simp_all

lemma handleClick_dbl_buy_succeeds:
  assumes "is_Running s" and "\<not> showSettings s" and "\<not> showShop s" and "buy_side_dbl e"
    and "10 \<le> balance s" and "balance s \<le> 2 ^ 500"
    and "10 \<le> purchasePercent s" and "purchasePercent s \<le> 100"
    and "prices s \<noteq> []" and "2 powi (- 500) \<le> last (prices s)" and "last (prices s) \<le> 2 ^ 500"
    and "0 \<le> portfolio s" and "portfolio s \<le> 2 ^ 1000"
  shows "handleClick_dbl s e =
           Inr (s\<lparr>balance := fl (balance s - buy_spent s),
                  portfolio := fl (portfolio s + buy_amount s)\<rparr>)"
proof -
  define T :: real where "T = 2 ^ 1023"
  define b where "b = balance s"
  define pr where "pr = last (prices s)"
  define q where "q = fl (purchasePercent s / 100)"
  define c where "c = fl (b * q)"
  have T: "1 \<le> T" "2 ^ 500 \<le> T" "2 ^ 1000 + 2 ^ 1000 \<le> T" "2 * 2 ^ 500 \<le> T"
    by (simp_all add: T_def)
  have fin: "\<bar>fl y\<bar> < 2 ^ 1024" if "\<bar>y\<bar> \<le> T" for y
    using that unfolding T_def by (rule fl_bounded)
  have pr: "0 < pr" "pr < 2 ^ 1024" "pr \<noteq> 0"
  proof -
    have "(0 :: real) < 2 powi (- 500)" by simp
    then show "0 < pr" using assms(10) unfolding pr_def by linarith
    then show "pr \<noteq> 0" by simp
    have "(2 :: real) ^ 500 < 2 ^ 1024" by (rule power_strict_increasing) simp_all
    then show "pr < 2 ^ 1024" using assms(11) unfolding pr_def by linarith
  qed
  have lp: "lastPrice (prices s) = Inr pr"
    using assms(9) by (simp add: lastPrice_Inr_iff pr_def)
  have x0: "0 \<le> purchasePercent s / 100" "purchasePercent s / 100 \<le> 1"
    using assms(7,8) by simp_all
  have q0: "0 \<le> q" unfolding q_def using x0(1) by (rule fl_nonneg)
  have "fl (purchasePercent s / 100) \<le> fl 1" using x0(2) by (rule fl_mono)
  then have q1: "q \<le> 1" by (simp add: q_def)
  have e1: "js_div (Inr (purchasePercent s)) (Inr 100) = Inr q"
    unfolding q_def using x0 T(1) by (intro js_div_eqI js_num_Inr fin) simp_all
  have y1: "0 \<le> b * q" "b * q \<le> 2 ^ 500"
  proof -
    show "0 \<le> b * q" using q0 assms(5) by (simp add: b_def)
    have "b * q \<le> b * 1" using q1 assms(5) by (intro mult_left_mono) (simp_all add: b_def)
    then show "b * q \<le> 2 ^ 500" using assms(6) by (simp add: b_def)
  qed
  have c0: "0 \<le> c" unfolding c_def using y1(1) by (rule fl_nonneg)
  have "fl (b * q) \<le> fl (2 ^ 500)" using y1(2) by (rule fl_mono)
  then have c1: "c \<le> 2 ^ 500" unfolding c_def fl_power2 .
  have e2: "js_mul (Inr (balance s)) (Inr q) = Inr c"
    unfolding c_def b_def [symmetric] using y1 T(2) by (intro js_mul_eqI js_num_Inr fin) simp
  have a: "buy_amount s = fl (c / pr)"
    by (simp add: buy_amount_def c_def q_def b_def pr_def)
  have y2: "0 \<le> c / pr" "c / pr \<le> 2 ^ 1000"
  proof -
    show "0 \<le> c / pr" using c0 pr(1) by simp
    have "c / pr \<le> 2 ^ 500 / pr" using c1 pr(1) by (simp add: divide_right_mono)
    also have "\<dots> \<le> 2 ^ 500 / 2 powi (- 500)"
      using assms(10) by (intro divide_left_mono) (simp_all add: pr_def)
    also have "\<dots> = 2 ^ 500 * 2 ^ 500" by (simp add: power_int_minus field_simps)
    also have "\<dots> = (2 :: real) ^ 1000" by (simp flip: power_add)
    finally show "c / pr \<le> 2 ^ 1000" .
  qed
  have e3: "js_div (Inr c) (Inr pr) = Inr (buy_amount s)"
    unfolding a using y2 T(3) pr(3) by (intro js_div_eqI js_num_Inr fin) simp_all
  have a0: "0 \<le> buy_amount s" unfolding a using y2(1) by (rule fl_nonneg)
  have "fl (c / pr) \<le> fl (2 ^ 1000)" using y2(2) by (rule fl_mono)
  then have a1: "buy_amount s \<le> 2 ^ 1000" unfolding a fl_power2 .
  have rg: "0 \<le> buy_spent s" "buy_spent s \<le> 2 * balance s"
    using assms(5,7,8) pr(1,2) unfolding pr_def by (rule buy_spent_range)+
  have "\<bar>buy_spent s\<bar> \<le> 2 * 2 ^ 500" using rg assms(6) by simp
  also have "\<dots> < (2 :: real) ^ 1024" by simp
  finally have "\<bar>fl (buy_amount s * pr)\<bar> < 2 ^ 1024" by (simp add: buy_spent_def pr_def)
  then have e4: "js_mul (Inr (buy_amount s)) (Inr pr) = Inr (buy_spent s)"
    unfolding buy_spent_def pr_def [symmetric] by (intro js_mul_eqI js_num_Inr)
  have "\<bar>balance s - buy_spent s\<bar> \<le> T" using rg assms(5,6) T(4) by linarith
  then have e5: "js_sub (Inr (balance s)) (Inr (buy_spent s)) = Inr (fl (balance s - buy_spent s))"
    by (intro js_sub_eqI js_num_Inr fin)
  have "\<bar>portfolio s + buy_amount s\<bar> \<le> T" using a0 a1 assms(12,13) T(3) by linarith
  then have e6: "js_add (Inr (portfolio s)) (Inr (buy_amount s)) = Inr (fl (portfolio s + buy_amount s))"
    by (intro js_add_eqI js_num_Inr fin)
  show ?thesis
    by (rule handleClick_dbl_buy [OF assms(1-5) lp e1 e2 e3 e4 e5 e6])
qed

section \<open>The rounding error of the running sum\<close>

text \<open>
  Every rounding adds at most the fraction \<open>2\<^bsup>-53\<^esup>\<close> of the exact result, or \<open>2\<^bsup>-1075\<^esup>\<close>
  for a subnormal result. The running sum after \<open>i\<close> iterations has been rounded at most
  \<open>2 i\<close> times, and every exact sum it stands for is bounded by the sum of the absolute
  values of the series.
\<close>

lemma fl_abs_error: "\<bar>fl x - x\<bar> \<le> \<bar>x\<bar> / 2 ^ 53 + 2 powi (- 1075)"
proof (cases "2 powi (- 1022) \<le> \<bar>x\<bar>")
  case True
  have "(0 :: real) \<le> 2 powi (- 1075)" by simp
  with fl_rel_error [OF True] show ?thesis by linarith
next
  case False
  have "(2 :: real) powi (- 1022) \<le> 2 powi (- 1021)" by (rule power_int_increasing) simp_all
  with False have "\<bar>x\<bar> < 2 powi (- 1021)" by linarith
  then have "binade x = - 1022" by (rule binade_subnormal)
  then have "ulp x = 2 powi (- 1074)" by (simp add: ulp_def)
  moreover have "(2 :: real) powi (- 1074) / 2 = 2 powi (- 1075)"
  proof -
    have "(2 :: real) powi (- 1074) = 2 powi (- 1075) * 2 powi 1"
      by (subst power_int_add [symmetric]) simp_all
    then show ?thesis by simp
  qed
  moreover have "0 \<le> \<bar>x\<bar> / 2 ^ 53" by simp
  ultimately show ?thesis using fl_error [of x] by linarith
qed

lemma tiny_ratio: "(2 :: real) powi (- 1075) = 2 powi (- 1022) / 2 ^ 53"
proof -
  have "(2 :: real) powi (- 1022) = 2 powi (- 1075) * 2 powi 53"
    by (subst power_int_add [symmetric]) simp_all
  then show ?thesis by simp
qed

lemma round_step:
  assumes "\<bar>t - r\<bar> \<le> (K - 1) * (A + 2 powi (- 1022))" and "\<bar>r\<bar> \<le> A" and "1 \<le> K"
  shows "\<bar>fl t - r\<bar> \<le> (K * (1 + 1 / 2 ^ 53) - 1) * (A + 2 powi (- 1022))"
proof -
  define B where "B = A + 2 powi (- 1022)"
  define E where "E = (K - 1) * B"
  define h :: real where "h = 2 powi (- 1075)"
  have hB: "h = (B - A) / 2 ^ 53" unfolding h_def B_def tiny_ratio by simp
  have e: "\<bar>t - r\<bar> \<le> E" using assms(1) by (simp add: E_def B_def)
  have "\<bar>t\<bar> \<le> A + E" using e assms(2) by linarith
  then have "\<bar>t\<bar> / 2 ^ 53 \<le> (A + E) / 2 ^ 53" by (simp add: divide_right_mono)
  moreover have "\<bar>fl t - t\<bar> \<le> \<bar>t\<bar> / 2 ^ 53 + h" unfolding h_def by (rule fl_abs_error)
  ultimately have "\<bar>fl t - r\<bar> \<le> E + (A + E) / 2 ^ 53 + (B - A) / 2 ^ 53"
    using e unfolding hB by linarith
  also have "\<dots> = (K * (1 + 1 / 2 ^ 53) - 1) * B"
    by (simp add: E_def field_simps)
  finally show ?thesis by (simp add: B_def)
qed

lemma part_sum_le:
  assumes "K \<subseteq> {..< length data}"
  shows "\<bar>\<Sum>j\<in>K. data ! j\<bar> \<le> (\<Sum>d\<leftarrow>data. \<bar>d :: real\<bar>)"
proof -
  have "\<bar>\<Sum>j\<in>K. data ! j\<bar> \<le> (\<Sum>j\<in>K. \<bar>data ! j\<bar>)" by (rule sum_abs)
  also have "\<dots> \<le> (\<Sum>j\<in>{..< length data}. \<bar>data ! j\<bar>)"
    using assms by (intro sum_mono2) simp_all
  also have "\<dots> = (\<Sum>m\<leftarrow>map abs data. m)"
    using sum_list_sum_nth [of "map abs data"] by (simp add: atLeast0LessThan)
  finally show ?thesis by simp
qed

lemma sma_sum_error:
  assumes "1 \<le> w" and "i \<le> length data" and "sma_sum data w i = Inr S"
  shows "\<bar>S - running_sum data w i\<bar>
           \<le> ((1 + 1 / 2 ^ 53) ^ (2 * i) - 1) * ((\<Sum>d\<leftarrow>data. \<bar>d\<bar>) + 2 powi (- 1022))"
  using assms(2,3)
proof (induction i arbitrary: S)
  case 0
  then show ?case by (simp add: running_sum_0)
next
  case (Suc i)
  define A where "A = (\<Sum>d\<leftarrow>data. \<bar>d\<bar>)"
  define c :: real where "c = 1 + 1 / 2 ^ 53"
  define K where "K = c ^ (2 * i)"
  have c1: "1 \<le> c" by (simp add: c_def)
  have K1: "1 \<le> K" unfolding K_def using c1 by (rule one_le_power)
  have A0: "0 \<le> A + 2 powi (- 1022)"
    unfolding A_def by (intro add_nonneg_nonneg sum_list_nonneg zero_le_power_int) auto
  have Kc: "c ^ (2 * Suc i) = K * c * c" by (simp add: K_def)
  obtain x where x: "js_add (sma_sum data w i) (Inr (data ! i)) = Inr x"
    and S: "S = (if w \<le> i then fl (x - data ! (i - w)) else x)"
    using Suc.prems(2) by (auto simp: js_sub_Inr_iff js_num_Inr_iff split: if_splits)
  from x obtain S0 where S0: "sma_sum data w i = Inr S0" and x': "x = fl (S0 + data ! i)"
    by (auto simp: js_add_Inr_iff js_num_Inr_iff)
  have ih: "\<bar>S0 - running_sum data w i\<bar> \<le> (K - 1) * (A + 2 powi (- 1022))"
    unfolding K_def A_def c_def using Suc.prems(1) S0 by (intro Suc.IH) simp_all
  have sub: "{i - w ..< Suc i} \<subseteq> {..< length data}" using Suc.prems(1) by auto
  have a: "running_sum data w i + data ! i = (\<Sum>j = i - w ..< Suc i. data ! j)"
    by (auto simp: running_sum_def)
  have r1: "\<bar>running_sum data w i + data ! i\<bar> \<le> A"
    unfolding a A_def using sub by (rule part_sum_le)
  have "\<bar>(S0 + data ! i) - (running_sum data w i + data ! i)\<bar> \<le> (K - 1) * (A + 2 powi (- 1022))"
    using ih by simp
  then have e1: "\<bar>x - (running_sum data w i + data ! i)\<bar>
                   \<le> (K * c - 1) * (A + 2 powi (- 1022))"
    unfolding x' c_def using r1 K1 by (rule round_step)
  have Kc1: "1 \<le> K * c" using mult_mono [OF K1 c1] K1 by simp
  have mono: "(K * c - 1) * (A + 2 powi (- 1022)) \<le> (K * c * c - 1) * (A + 2 powi (- 1022))"
  proof -
    have "K * c * 1 \<le> K * c * c" using c1 Kc1 by (intro mult_left_mono) simp_all
    then show ?thesis using A0 by (intro mult_right_mono) simp_all
  qed
  show ?case
  proof (cases "w \<le> i")
    case False
    then have "running_sum data w (Suc i) = running_sum data w i + data ! i"
      by (intro running_sum_grow) simp
    moreover have "S = x" using S False by simp
    ultimately show ?thesis
      using e1 mono unfolding Kc A_def [symmetric] c_def [symmetric] by simp
  next
    case True
    have r: "running_sum data w (Suc i) = running_sum data w i + data ! i - data ! (i - w)"
      using True assms(1) by (rule running_sum_slide)
    have sub2: "{Suc i - w ..< Suc i} \<subseteq> {..< length data}" using Suc.prems(1) by auto
    have r2: "\<bar>running_sum data w (Suc i)\<bar> \<le> A"
      unfolding running_sum_def A_def using sub2 by (rule part_sum_le)
    have "\<bar>(x - data ! (i - w)) - running_sum data w (Suc i)\<bar>
            \<le> (K * c - 1) * (A + 2 powi (- 1022))"
      using e1 unfolding r by simp
    then have "\<bar>fl (x - data ! (i - w)) - running_sum data w (Suc i)\<bar>
            \<le> (K * c * (1 + 1 / 2 ^ 53) - 1) * (A + 2 powi (- 1022))"
      using r2 Kc1 by (rule round_step)
    moreover have "S = fl (x - data ! (i - w))" using S True by simp
    ultimately show ?thesis
      unfolding Kc A_def [symmetric] c_def [symmetric] by simp
  qed
qed

lemma compound_le:
  assumes "real m \<le> 2 ^ 52"
  shows "(1 + 1 / 2 ^ 53) ^ m \<le> 1 + real m / 2 ^ 52"
  using assms
proof (induction m)
  case 0
  show ?case by simp
next
  case (Suc m)
  define u :: real where "u = 1 / 2 ^ 53"
  define y where "y = real m * (2 * u)"
  have u0: "0 \<le> u" by (simp add: u_def)
  have e: "real m / 2 ^ 52 = y" "real (Suc m) / 2 ^ 52 = y + 2 * u"
    by (simp_all add: y_def u_def field_simps)
  have "real m \<le> 2 ^ 52" using Suc.prems by simp
  then have ih: "(1 + u) ^ m \<le> 1 + y"
    using Suc.IH unfolding u_def [symmetric] e by simp
  have "y + 2 * u \<le> 1" using Suc.prems unfolding e(2) [symmetric] by simp
  then have y1: "y \<le> 1" using u0 by linarith
  have "(1 + u) ^ Suc m = (1 + u) * (1 + u) ^ m" by simp
  also have "\<dots> \<le> (1 + u) * (1 + y)" using ih u0 by (intro mult_left_mono) simp_all
  also have "\<dots> = 1 + y + u + u * y" by (simp add: algebra_simps)
  also have "\<dots> \<le> 1 + y + u + u * 1" using y1 u0 by (intro add_left_mono mult_left_mono)
  also have "\<dots> = 1 + (y + 2 * u)" by simp
  finally show ?case unfolding u_def [symmetric] e .
qed

lemma sma_value_error:
  assumes "1 \<le> w" and "w \<le> length data" and "i < length data - w + 1"
    and "sma data w ! i = Inr m" and "length data < 2 ^ 32"
  shows "\<bar>m - window_mean data w i\<bar>
           \<le> real (2 * length data + 1) / 2 ^ 52 * ((\<Sum>d\<leftarrow>data. \<bar>d\<bar>) + 2 powi (- 1022))"
proof -
  define A where "A = (\<Sum>d\<leftarrow>data. \<bar>d\<bar>)"
  define B where "B = A + 2 powi (- 1022)"
  define c :: real where "c = 1 + 1 / 2 ^ 53"
  define K where "K = c ^ (2 * (i + w))"
  define R where "R = running_sum data w (i + w)"
  have c1: "1 \<le> c" by (simp add: c_def)
  have K1: "1 \<le> K" unfolding K_def using c1 by (rule one_le_power)
  have B0: "0 \<le> B"
    unfolding B_def A_def by (intro add_nonneg_nonneg sum_list_nonneg zero_le_power_int) auto
  have w0: "1 \<le> real w" using assms(1) by simp
  have iw: "i + w \<le> length data" using assms(2,3) by simp
  have "sma data w ! i = js_div (sma_sum data w (i + w)) (Inr (real w))"
    using assms(1-3) by (simp add: sma_sums del: upt_Suc)
  then have "js_div (sma_sum data w (i + w)) (Inr (real w)) = Inr m"
    using assms(4) by simp
  then obtain S where S: "sma_sum data w (i + w) = Inr S" and m: "m = fl (S / real w)"
    by (auto simp: js_div_Inr_iff js_num_Inr_iff)
  have e: "\<bar>S - R\<bar> \<le> (K - 1) * B"
    unfolding K_def c_def B_def A_def R_def using assms(1) iw S by (rule sma_sum_error)
  have sub: "{i + w - w ..< i + w} \<subseteq> {..< length data}" using iw by auto
  have RA: "\<bar>R\<bar> \<le> A"
    unfolding R_def running_sum_def A_def using sub by (rule part_sum_le)
  have shrink: "\<bar>z\<bar> / real w \<le> \<bar>z\<bar>" for z :: real
  proof -
    have "\<bar>z\<bar> / real w \<le> \<bar>z\<bar> / 1" using w0 by (intro divide_left_mono) simp_all
    then show ?thesis by simp
  qed
  have "S / real w - R / real w = (S - R) / real w" by (simp add: diff_divide_distrib)
  then have "\<bar>S / real w - R / real w\<bar> = \<bar>S - R\<bar> / real w" by simp
  then have t: "\<bar>S / real w - R / real w\<bar> \<le> (K - 1) * (A + 2 powi (- 1022))"
    using shrink [of "S - R"] e unfolding B_def by linarith
  have "\<bar>R / real w\<bar> = \<bar>R\<bar> / real w" by simp
  then have r: "\<bar>R / real w\<bar> \<le> A" using shrink [of R] RA by linarith
  have step: "\<bar>m - R / real w\<bar> \<le> (K * c - 1) * B"
    unfolding m c_def B_def using t r K1 by (rule round_step)
  have "i + w = Suc (i + w - 1)" using assms(1) by simp
  moreover have "running_sum data w (Suc (i + w - 1)) / real w
                   = window_mean data w (Suc (i + w - 1) - w)"
    using assms(1) iw by (intro window_mean_running_sum) simp_all
  ultimately have mean: "R / real w = window_mean data w i"
    using assms(1) by (simp add: R_def)
  have "K * c = c ^ (2 * (i + w) + 1)" by (simp add: K_def)
  also have "\<dots> \<le> c ^ (2 * length data + 1)"
    using c1 iw by (intro power_increasing) simp_all
  also have "\<dots> \<le> 1 + real (2 * length data + 1) / 2 ^ 52"
    unfolding c_def
  proof (rule compound_le)
    have "2 * length data + 1 \<le> 2 * 2 ^ 32" using assms(5) by simp
    then have "real (2 * length data + 1) \<le> real (2 * 2 ^ 32)" by (rule of_nat_mono)
    also have "\<dots> \<le> 2 ^ 52" by simp
    finally show "real (2 * length data + 1) \<le> 2 ^ 52" .
  qed
  finally have "K * c - 1 \<le> real (2 * length data + 1) / 2 ^ 52" by linarith
  then have "(K * c - 1) * B \<le> real (2 * length data + 1) / 2 ^ 52 * B"
    using B0 by (rule mult_right_mono)
  with step show ?thesis unfolding mean B_def A_def by linarith
qed

section \<open>The claims about rounded numbers\<close>




text \<open>
  Claim C5, as stated, fails: for the series \<open>2\<^sup>5\<^sup>3, 1, 1\<close> and the window \<open>2\<close> the loop
  returns \<open>2\<^sup>5\<^sup>2, 0\<close>. The running sum \<open>2\<^sup>5\<^sup>3 + 1\<close> rounds to \<open>2\<^sup>5\<^sup>3\<close> twice, and subtracting
  the element that leaves the window gives \<open>0\<close>, while the mean of the second window
  \<open>1, 1\<close> is \<open>1\<close>.
\<close>

theorem sma_drops_small_terms:
  "sma [9007199254740992, 1, 1] 2 = [Inr 4503599627370496, Inr 0]
   \<and> map (window_mean [9007199254740992, 1, 1] 2) [0, 1] = [9007199254740993 / 2, 1]"
proof -
  let ?d = "[9007199254740992, 1, 1 :: real]"
  have u: "[0 ..< 2] = [0, Suc 0]" by (simp add: upt_rec)
  have s1: "sma_sum ?d 2 (Suc 0) = Inr 9007199254740992"
    by (simp add: js_ops_Inr, rule js_num_fixedI [of _ 1 53]) simp_all
  have t: "js_num (9007199254740992 + 1) = Inr 9007199254740992"
    by (rule js_num_tieI [of 53 _ 4503599627370496]) simp_all
  have s2: "sma_sum ?d 2 (Suc (Suc 0)) = Inr 9007199254740992"
    unfolding sma_sum.simps(2) [of _ _ "Suc 0"] s1 using t by (simp add: js_ops_Inr)
  have s3: "sma_sum ?d 2 (Suc (Suc (Suc 0))) = Inr 0"
    unfolding sma_sum.simps(2) [of _ _ "Suc (Suc 0)"] s2 using t by (simp add: js_ops_Inr)
  have q: "js_num (9007199254740992 / 2) = Inr 4503599627370496"
    by (simp, rule js_num_fixedI [of _ 1 52]) simp_all
  have "sma ?d 2 = [js_div (sma_sum ?d 2 (Suc (Suc 0))) (Inr 2),
                    js_div (sma_sum ?d 2 (Suc (Suc (Suc 0)))) (Inr 2)]"
    by (simp add: sma_sums u numeral_2_eq_2 numeral_3_eq_3 del: sma_sum.simps)
  also have "\<dots> = [Inr 4503599627370496, Inr 0]"
    unfolding s2 s3 using q by (simp add: js_ops_Inr)
  finally show ?thesis by (simp add: window_mean_def)
qed

text \<open>
  Claim C5, amended. For every series and every window \<open>w \<ge> 1\<close>, \<open>sma\<close> returns the empty
  sequence when the series is shorter than \<open>w\<close>, and otherwise \<open>length data - w + 1\<close> values,
  the \<open>i\<close>-th being the running sum of the loop after the element \<open>i + w - 1\<close>, every
  addition and subtraction rounded, divided by \<open>w\<close>. For a series of \<open>n < 2\<^sup>3\<^sup>2\<close> elements a
  finite \<open>i\<close>-th value differs from the arithmetic mean of the elements \<open>i, \<dots>, i + w - 1\<close>
  by at most \<open>(2 n + 1) \<times> 2\<^bsup>-52\<^esup> \<times> (S + 2\<^bsup>-1022\<^esup>)\<close>, where \<open>S\<close> is the sum of the absolute
  values of the series. When the elements are integer multiples
  \<open>m \<times> 2\<^sup>k\<close> of one power of two (\<open>-1074 \<le> k \<le> 970\<close>) and the absolute values of the integers
  \<open>m\<close> add up to less than \<open>2\<^sup>5\<^sup>3\<close>, no sum rounds, and the \<open>i\<close>-th value is the double nearest
  to the arithmetic mean of the elements \<open>i, \<dots>, i + w - 1\<close>, which is what summing every
  window from scratch gives.
\<close>

theorem sma_rounded_mean:
  assumes "1 \<le> w"
  shows "(length data < w \<longrightarrow> sma data w = [])
    \<and> (w \<le> length data \<longrightarrow>
          length (sma data w) = length data - w + 1
          \<and> (\<forall>i < length data - w + 1.
                sma data w ! i = js_div (sma_sum data w (i + w)) (Inr (real w))))
    \<and> (w \<le> length data \<and> length data < 2 ^ 32 \<and> j < length data - w + 1
         \<and> sma data w ! j = Inr x \<longrightarrow>
          \<bar>x - window_mean data w j\<bar>
            \<le> real (2 * length data + 1) / 2 ^ 52 * ((\<Sum>d\<leftarrow>data. \<bar>d\<bar>) + 2 powi (- 1022)))
    \<and> (w \<le> length ms \<and> (\<Sum>m\<leftarrow>ms. \<bar>m\<bar>) < 2 ^ 53 \<and> - 1074 \<le> k \<and> k \<le> 970 \<longrightarrow>
          sma (on_grid k ms) w =
            map (\<lambda>i. Inr (fl (window_mean (on_grid k ms) w i))) [0 ..< length ms - w + 1])"
proof (intro conjI impI allI)
  show "\<bar>x - window_mean data w j\<bar>
          \<le> real (2 * length data + 1) / 2 ^ 52 * ((\<Sum>d\<leftarrow>data. \<bar>d\<bar>) + 2 powi (- 1022))"
    if "w \<le> length data \<and> length data < 2 ^ 32 \<and> j < length data - w + 1
         \<and> sma data w ! j = Inr x"
    using that assms by (intro sma_value_error) simp_all
  show "sma data w = []" if "length data < w"
    using that by (rule sma_short)
  show "length (sma data w) = length data - w + 1" if "w \<le> length data"
    using assms that by (rule sma_length)
  show "sma data w ! i = js_div (sma_sum data w (i + w)) (Inr (real w))"
    if "w \<le> length data" and "i < length data - w + 1" for i
    using that assms by (simp add: sma_sums del: upt_Suc)
  show "sma (on_grid k ms) w =
          map (\<lambda>i. Inr (fl (window_mean (on_grid k ms) w i))) [0 ..< length ms - w + 1]"
    if "w \<le> length ms \<and> (\<Sum>m\<leftarrow>ms. \<bar>m\<bar>) < 2 ^ 53 \<and> - 1074 \<le> k \<and> k \<le> 970"
    using that assms by (intro sma_exact) simp_all
qed

text \<open>
  Instances: the one-element series is shorter than the window \<open>2\<close>; the series
  \<open>1, 2, 3, 4, 5\<close> has the means \<open>3/2, 5/2, 7/2, 9/2\<close>.
\<close>

theorem sma_rounded_mean_witness:
  "(1 :: nat) \<le> 2 \<and> length [7 :: real] < 2 \<and> sma [7] 2 = []
   \<and> 2 \<le> length [1, 2, 3, 4, 5 :: real] \<and> length (sma [1, 2, 3, 4, 5] 2) = 4
   \<and> (3 :: nat) < length [1, 2, 3, 4, 5 :: real] - 2 + 1
   \<and> sma [1, 2, 3, 4, 5] 2 ! 3 = js_div (sma_sum [1, 2, 3, 4, 5] 2 (3 + 2)) (Inr (real 2))
   \<and> 2 \<le> length [1, 2, 3, 4, 5 :: int] \<and> (\<Sum>m\<leftarrow>[1, 2, 3, 4, 5 :: int]. \<bar>m\<bar>) < 2 ^ 53
   \<and> on_grid 0 [1, 2, 3, 4, 5] = [1, 2, 3, 4, 5]
   \<and> map (window_mean [1, 2, 3, 4, 5] 2) [0, 1, 2, 3] = [3 / 2, 5 / 2, 7 / 2, 9 / 2]
   \<and> sma [1, 2, 3, 4, 5] 2 = [Inr (3 / 2), Inr (5 / 2), Inr (7 / 2), Inr (9 / 2)]
   \<and> length [1, 2, 3, 4, 5 :: real] < 2 ^ 32 \<and> sma [1, 2, 3, 4, 5] 2 ! 3 = Inr (9 / 2)
   \<and> \<bar>9 / 2 - window_mean [1, 2, 3, 4, 5] 2 3\<bar>
        \<le> real (2 * length [1, 2, 3, 4, 5 :: real] + 1) / 2 ^ 52
            * ((\<Sum>d\<leftarrow>[1, 2, 3, 4, 5 :: real]. \<bar>d\<bar>) + 2 powi (- 1022))"
proof -
  have g: "on_grid 0 [1, 2, 3, 4, 5] = [1, 2, 3, 4, 5]" by (simp add: on_grid_def)
  have u: "[0 ..< 4] = [0, 1, 2, 3]" by (simp add: upt_rec)
  have f3: "fl (3 / 2) = 3 / 2"
    by (rule fl_fixed [of _ 3 "- 1"]) (simp_all add: power_int_minus)
  have f5: "fl (5 / 2) = 5 / 2"
    by (rule fl_fixed [of _ 5 "- 1"]) (simp_all add: power_int_minus)
  have f7: "fl (7 / 2) = 7 / 2"
    by (rule fl_fixed [of _ 7 "- 1"]) (simp_all add: power_int_minus)
  have f9: "fl (9 / 2) = 9 / 2"
    by (rule fl_fixed [of _ 9 "- 1"]) (simp_all add: power_int_minus)
  note f = f3 f5 f7 f9
  have m: "map (window_mean [1, 2, 3, 4, 5] 2) [0, 1, 2, 3] = [3 / 2, 5 / 2, 7 / 2, 9 / 2]"
    by (simp add: window_mean_def)
  have t1: "sma [7] 2 = []"
    using sma_rounded_mean [of 2 "[7]"] by simp
  have h: "(1 :: nat) \<le> 2" by simp
  have l: "2 \<le> length [1, 2, 3, 4, 5 :: real]" by simp
  have i: "(3 :: nat) < length [1, 2, 3, 4, 5 :: real] - 2 + 1" by simp
  note t = sma_rounded_mean [OF h, of "[1, 2, 3, 4, 5]"]
  have "length (sma [1, 2, 3, 4, 5] 2) = length [1, 2, 3, 4, 5 :: real] - 2 + 1"
    using t l by blast
  then have t2: "length (sma [1, 2, 3, 4, 5] 2) = 4" by simp
  have t4: "sma [1, 2, 3, 4, 5] 2 ! 3 = js_div (sma_sum [1, 2, 3, 4, 5] 2 (3 + 2)) (Inr (real 2))"
    using t l i by blast
  have c: "2 \<le> length [1, 2, 3, 4, 5 :: int] \<and> (\<Sum>m\<leftarrow>[1, 2, 3, 4, 5 :: int]. \<bar>m\<bar>) < 2 ^ 53
      \<and> - 1074 \<le> (0 :: int) \<and> (0 :: int) \<le> 970"
    by simp
  note t' = sma_rounded_mean [OF h, of _ _ _ "[1, 2, 3, 4, 5]" 0]
  have e: "sma (on_grid 0 [1, 2, 3, 4, 5]) 2 =
      map (\<lambda>i. Inr (fl (window_mean (on_grid 0 [1, 2, 3, 4, 5]) 2 i)))
        [0 ..< length [1, 2, 3, 4, 5 :: int] - 2 + 1]"
    using t' c by blast
  have idx: "[0 ..< length [1, 2, 3, 4, 5 :: int] - 2 + 1] = [0, 1, 2, 3]"
    by (simp add: upt_rec)
  have wm: "window_mean [1, 2, 3, 4, 5] 2 0 = 3 / 2" "window_mean [1, 2, 3, 4, 5] 2 1 = 5 / 2"
    "window_mean [1, 2, 3, 4, 5] 2 2 = 7 / 2" "window_mean [1, 2, 3, 4, 5] 2 3 = 9 / 2"
    by (simp_all add: window_mean_def)
  have t3: "sma [1, 2, 3, 4, 5] 2 = [Inr (3 / 2), Inr (5 / 2), Inr (7 / 2), Inr (9 / 2)]"
    using e unfolding g idx by (simp only: list.map wm f)
  have s: "length [7 :: real] < 2" by simp
  have n: "length [1, 2, 3, 4, 5 :: real] < 2 ^ 32" by simp
  have v: "sma [1, 2, 3, 4, 5] 2 ! 3 = Inr (9 / 2)" unfolding t3 by simp
  note t5 = sma_rounded_mean [OF h, of "[1, 2, 3, 4, 5]" 3 "9 / 2"]
  have t6: "\<bar>9 / 2 - window_mean [1, 2, 3, 4, 5] 2 3\<bar>
        \<le> real (2 * length [1, 2, 3, 4, 5 :: real] + 1) / 2 ^ 52
            * ((\<Sum>d\<leftarrow>[1, 2, 3, 4, 5 :: real]. \<bar>d\<bar>) + 2 powi (- 1022))"
    using t5 l n i v by blast
  show ?thesis
    using t1 t2 t3 t4 t6 g m h l i c s n v by blast
qed

text \<open>
  Claim C2, as stated, fails in two ways. A buy gesture in a running session with cash
  \<open>100\<close> changes nothing while the shop is open (the first test of \<^verbatim>\<open>handleClick\<close>). And with
  cash \<open>100\<close>, the price \<open>97\<close> and the purchase percentage \<open>50\<close> the buy leaves
  \<open>7036874417766401 / 2\<^sup>4\<^sup>7\<close>, which is more than \<open>50\<close>: the quotient \<open>50 / 97\<close> is rounded, and
  its product with \<open>97\<close> is the double below \<open>50\<close>.
\<close>

theorem buy_blocked_or_rounded:
  "is_Running sc_shop_open \<and> buy_side_dbl right_click \<and> 10 \<le> balance sc_shop_open
   \<and> handleClick_dbl sc_shop_open right_click = Inr sc_shop_open
   \<and> is_Running sc_97 \<and> \<not> showSettings sc_97 \<and> \<not> showShop sc_97
   \<and> balance sc_97 = 100 \<and> purchasePercent sc_97 = 50 \<and> last (prices sc_97) = 97
   \<and> handleClick_dbl sc_97 right_click = Inr sc_97_bought
   \<and> balance sc_97_bought = 7036874417766401 / 140737488355328
   \<and> (50 :: real) < 7036874417766401 / 140737488355328"
proof -
  have "handleClick_dbl sc_shop_open right_click = Inr sc_shop_open"
    by (rule handleClick_dbl_blocked) simp
  then show ?thesis
    using half_buy_at_97 click_sides_dbl
    by (simp add: trading_state_fields is_Running_def)
qed

text \<open>
  Claim C2, amended. While the session is running and neither popup is open, a buy gesture
  with cash below \<open>10\<close> changes nothing. With cash of at least \<open>10\<close> and finite results it
  replaces cash by \<open>fl (cash - spent)\<close> and the position by \<open>fl (position + amount)\<close>, where
  \<open>amount = (cash \<times> (p / 100)) / price\<close> and \<open>spent = amount \<times> price\<close>, every operator rounded;
  the results are finite at least for cash up to \<open>2\<^sup>5\<^sup>0\<^sup>0\<close>, a price between \<open>2\<^bsup>-500\<^esup>\<close> and
  \<open>2\<^sup>5\<^sup>0\<^sup>0\<close>, a position between \<open>0\<close> and \<open>2\<^sup>1\<^sup>0\<^sup>0\<^sup>0\<close> and \<open>p\<close> in \<open>[10, 100]\<close>. For \<open>p\<close> in
  \<open>[10, 100]\<close> and a positive price the amount is positive and \<open>spent\<close> differs from
  \<open>cash \<times> p / 100\<close> by at most the fraction \<open>2\<^bsup>-49\<^esup>\<close> of it. With cash \<open>100\<close>, price \<open>100\<close>,
  \<open>p = 50\<close> and no shares the buy spends \<open>50\<close>, acquires \<open>0.5\<close> shares and leaves \<open>50\<close>.
\<close>

theorem buy_gesture_rounded:
  assumes "is_Running s" and "\<not> showSettings s" and "\<not> showShop s" and "buy_side_dbl e"
  shows "(balance s < 10 \<longrightarrow> handleClick_dbl s e = Inr s)
    \<and> (10 \<le> balance s \<and> handleClick_dbl s e = Inr s' \<longrightarrow>
          s' = s\<lparr>balance := fl (balance s - buy_spent s),
                 portfolio := fl (portfolio s + buy_amount s)\<rparr>
          \<and> buy_amount s =
              fl (fl (balance s * fl (purchasePercent s / 100)) / last (prices s))
          \<and> buy_spent s = fl (buy_amount s * last (prices s)))
    \<and> (10 \<le> balance s \<and> 10 \<le> purchasePercent s \<and> purchasePercent s \<le> 100
         \<and> 0 < last (prices s) \<and> last (prices s) < 2 ^ 1024 \<longrightarrow>
          \<bar>buy_spent s - balance s * (purchasePercent s / 100)\<bar>
            \<le> balance s * (purchasePercent s / 100) / 2 ^ 49
          \<and> 0 < buy_amount s)
    \<and> (10 \<le> balance s \<and> balance s \<le> 2 ^ 500
         \<and> 10 \<le> purchasePercent s \<and> purchasePercent s \<le> 100
         \<and> prices s \<noteq> [] \<and> 2 powi (- 500) \<le> last (prices s) \<and> last (prices s) \<le> 2 ^ 500
         \<and> 0 \<le> portfolio s \<and> portfolio s \<le> 2 ^ 1000 \<longrightarrow>
          handleClick_dbl s e =
            Inr (s\<lparr>balance := fl (balance s - buy_spent s),
                   portfolio := fl (portfolio s + buy_amount s)\<rparr>))
    \<and> (balance s = 100 \<and> prices s \<noteq> [] \<and> last (prices s) = 100
         \<and> purchasePercent s = 50 \<and> portfolio s = 0 \<longrightarrow>
          handleClick_dbl s e = Inr (s\<lparr>balance := 50, portfolio := 1 / 2\<rparr>))"
proof (intro conjI impI)
  show "handleClick_dbl s e = Inr s" if "balance s < 10"
    using assms that by (simp add: handleClick_dbl_buy_poor is_Running_def)
  show "s' = s\<lparr>balance := fl (balance s - buy_spent s),
                 portfolio := fl (portfolio s + buy_amount s)\<rparr>"
    if "10 \<le> balance s \<and> handleClick_dbl s e = Inr s'"
    using handleClick_dbl_buy_inv [OF assms, of s'] that by simp
  show "buy_amount s = fl (fl (balance s * fl (purchasePercent s / 100)) / last (prices s))"
    by (simp add: buy_amount_def)
  show "buy_spent s = fl (buy_amount s * last (prices s))"
    by (simp add: buy_spent_def)
  show "\<bar>buy_spent s - balance s * (purchasePercent s / 100)\<bar>
            \<le> balance s * (purchasePercent s / 100) / 2 ^ 49"
    if h: "10 \<le> balance s \<and> 10 \<le> purchasePercent s \<and> purchasePercent s \<le> 100
         \<and> 0 < last (prices s) \<and> last (prices s) < 2 ^ 1024"
    using that by (intro buy_spent_abs) simp_all
  show "0 < buy_amount s"
    if h: "10 \<le> balance s \<and> 10 \<le> purchasePercent s \<and> purchasePercent s \<le> 100
         \<and> 0 < last (prices s) \<and> last (prices s) < 2 ^ 1024"
    using that by (intro buy_spent_close(3)) simp_all
  show "handleClick_dbl s e =
            Inr (s\<lparr>balance := fl (balance s - buy_spent s),
                   portfolio := fl (portfolio s + buy_amount s)\<rparr>)"
    if h: "10 \<le> balance s \<and> balance s \<le> 2 ^ 500
         \<and> 10 \<le> purchasePercent s \<and> purchasePercent s \<le> 100
         \<and> prices s \<noteq> [] \<and> 2 powi (- 500) \<le> last (prices s) \<and> last (prices s) \<le> 2 ^ 500
         \<and> 0 \<le> portfolio s \<and> portfolio s \<le> 2 ^ 1000"
    using assms that by (intro handleClick_dbl_buy_succeeds) simp_all
  show "handleClick_dbl s e = Inr (s\<lparr>balance := 50, portfolio := 1 / 2\<rparr>)"
    if h: "balance s = 100 \<and> prices s \<noteq> [] \<and> last (prices s) = 100
         \<and> purchasePercent s = 50 \<and> portfolio s = 0"
  proof -
    have f: "balance s = 100" "purchasePercent s = 50" "portfolio s = 0"
      "lastPrice (prices s) = Inr 100"
      using h by (simp_all add: lastPrice_Inr_iff)
    have b: "10 \<le> balance s" using f by simp
    have q: "js_div (Inr (purchasePercent s)) (Inr 100) = Inr (1 / 2)"
      unfolding f by (rule js_div_eqI, simp, rule js_num_eqI [of "- 1" _ "4503599627370496"]) simp_all
    have c: "js_mul (Inr (balance s)) (Inr (1 / 2)) = Inr 50"
      unfolding f by (rule js_mul_eqI, rule js_num_eqI [of "5" _ "7036874417766400"]) simp_all
    have a: "js_div (Inr 50) (Inr 100) = Inr (1 / 2)"
      unfolding f by (rule js_div_eqI, simp, rule js_num_eqI [of "- 1" _ "4503599627370496"]) simp_all
    have sp: "js_mul (Inr (1 / 2)) (Inr 100) = Inr 50"
      unfolding f by (rule js_mul_eqI, rule js_num_eqI [of "5" _ "7036874417766400"]) simp_all
    have nb: "js_sub (Inr (balance s)) (Inr 50) = Inr 50"
      unfolding f by (rule js_sub_eqI, rule js_num_eqI [of "5" _ "7036874417766400"]) simp_all
    have np: "js_add (Inr (portfolio s)) (Inr (1 / 2)) = Inr (1 / 2)"
      unfolding f by (rule js_add_eqI, rule js_num_eqI [of "- 1" _ "4503599627370496"]) simp_all
    show ?thesis
      by (rule handleClick_dbl_buy [OF assms b f(4) q c a sp nb np])
  qed
qed

text \<open>
  Instances: the session with cash \<open>100\<close> at the price \<open>100\<close>, a session with cash \<open>8\<close>,
  and the session at the price \<open>97\<close>.
\<close>

theorem buy_gesture_rounded_witness:
  "is_Running sc_100 \<and> \<not> showSettings sc_100 \<and> \<not> showShop sc_100 \<and> buy_side_dbl right_click
   \<and> balance sc_100 = 100 \<and> prices sc_100 \<noteq> [] \<and> last (prices sc_100) = 100
   \<and> purchasePercent sc_100 = 50 \<and> portfolio sc_100 = 0
   \<and> handleClick_dbl sc_100 right_click = Inr sc_100_bought
   \<and> handleClick_dbl sc_100 right_click =
        Inr (sc_100\<lparr>balance := fl (balance sc_100 - buy_spent sc_100),
                  portfolio := fl (portfolio sc_100 + buy_amount sc_100)\<rparr>)
   \<and> \<bar>buy_spent sc_100 - balance sc_100 * (purchasePercent sc_100 / 100)\<bar>
        \<le> balance sc_100 * (purchasePercent sc_100 / 100) / 2 ^ 49
   \<and> 0 < buy_amount sc_100
   \<and> is_Running sc_poor \<and> balance sc_poor < 10
   \<and> handleClick_dbl sc_poor right_click = Inr sc_poor
   \<and> 10 \<le> balance sc_97
   \<and> handleClick_dbl sc_97 right_click = Inr sc_97_bought
   \<and> sc_97_bought = sc_97\<lparr>balance := fl (balance sc_97 - buy_spent sc_97),
                   portfolio := fl (portfolio sc_97 + buy_amount sc_97)\<rparr>"
proof -
  have d: "is_Running sc_100" "\<not> showSettings sc_100" "\<not> showShop sc_100"
    and p: "is_Running sc_poor" "\<not> showSettings sc_poor"
      "\<not> showShop sc_poor"
    and c: "is_Running sc_97" "\<not> showSettings sc_97" "\<not> showShop sc_97"
    by (simp_all add: trading_state_fields is_Running_def)
  have e: "balance sc_100 = 100 \<and> prices sc_100 \<noteq> [] \<and> last (prices sc_100) = 100
      \<and> purchasePercent sc_100 = 50 \<and> portfolio sc_100 = 0"
    and b: "10 \<le> balance sc_100 \<and> 10 \<le> purchasePercent sc_100 \<and> purchasePercent sc_100 \<le> 100
         \<and> 0 < last (prices sc_100) \<and> last (prices sc_100) < 2 ^ 1024"
    and l: "balance sc_poor < 10"
    and g: "10 \<le> balance sc_97"
    by (simp_all add: trading_state_fields)
  have "(2 :: real) powi (- 500) \<le> 2 powi 0" by (rule power_int_increasing) simp_all
  then have m: "10 \<le> balance sc_100 \<and> balance sc_100 \<le> 2 ^ 500
         \<and> 10 \<le> purchasePercent sc_100 \<and> purchasePercent sc_100 \<le> 100
         \<and> prices sc_100 \<noteq> [] \<and> 2 powi (- 500) \<le> last (prices sc_100) \<and> last (prices sc_100) \<le> 2 ^ 500
         \<and> 0 \<le> portfolio sc_100 \<and> portfolio sc_100 \<le> 2 ^ 1000"
    by (simp add: trading_state_fields)
  note t1 = buy_gesture_rounded [OF d click_sides_dbl(1)]
  note t2 = buy_gesture_rounded [OF p click_sides_dbl(1)]
  note t3 = buy_gesture_rounded [OF c click_sides_dbl(1), of "sc_97_bought"]
  show ?thesis
    using d click_sides_dbl(1) e b l g m p(1) t1 t2 t3 half_buy_at_97 by blast
qed




text \<open>
  Claim C10, as stated, fails: with cash \<open>100\<close>, the price \<open>11\<close> and the purchase percentage
  \<open>100\<close>, the amount \<open>100 / 11\<close> rounds up, its product with \<open>11\<close> is the double above \<open>100\<close>,
  and the buy leaves the cash \<open>- 2\<^bsup>-46\<^esup>\<close>.
\<close>

theorem all_in_buy_overdraws:
  "is_Running sc_all_in \<and> \<not> showSettings sc_all_in \<and> \<not> showShop sc_all_in \<and> buy_side_dbl right_click
   \<and> balance sc_all_in = 100 \<and> purchasePercent sc_all_in = 100 \<and> last (prices sc_all_in) = 11
   \<and> handleClick_dbl sc_all_in right_click = Inr sc_all_in_bought
   \<and> balance sc_all_in_bought = - (1 / 70368744177664)
   \<and> - (1 / 70368744177664) < (0 :: real)"
  using all_in_buy_at_11 click_sides_dbl
  by (simp add: trading_state_fields is_Running_def)

text \<open>
  Claim C10, amended. In every reachable state the purchase percentage lies in
  \<open>[10, 100]\<close>. A buy with finite results at a positive price leaves the cash
  \<open>fl (cash - spent)\<close>, where \<open>spent\<close> differs from \<open>cash \<times> p / 100\<close> by at most the fraction
  \<open>2\<^bsup>-49\<^esup>\<close> of it: the cash left is at least \<open>- cash / 2\<^sup>4\<^sup>8\<close>, and it is not negative when
  \<open>p \<le> 90\<close>. A sale and the end of the session do not lower cash that is a double when the
  price and the position are not negative, and the reset sets cash to \<open>100\<close>.
\<close>

theorem cash_bounds_dbl:
  "(reachable s \<longrightarrow> 10 \<le> purchasePercent s \<and> purchasePercent s \<le> 100)
   \<and> (is_Running sb \<and> \<not> showSettings sb \<and> \<not> showShop sb \<and> buy_side_dbl eb
        \<and> 10 \<le> balance sb \<and> 10 \<le> purchasePercent sb \<and> purchasePercent sb \<le> 100
        \<and> 0 < last (prices sb) \<and> last (prices sb) < 2 ^ 1024
        \<and> handleClick_dbl sb eb = Inr sb' \<longrightarrow>
          balance sb' = fl (balance sb - buy_spent sb)
          \<and> \<bar>buy_spent sb - balance sb * (purchasePercent sb / 100)\<bar>
               \<le> balance sb * (purchasePercent sb / 100) / 2 ^ 49
          \<and> - (balance sb / 2 ^ 48) \<le> balance sb'
          \<and> (purchasePercent sb \<le> 90 \<longrightarrow> 0 \<le> balance sb'))
   \<and> (\<not> buy_side_dbl es \<and> is_double (balance ss)
        \<and> (prices ss \<noteq> [] \<longrightarrow> 0 \<le> last (prices ss))
        \<and> handleClick_dbl ss es = Inr ss' \<longrightarrow> balance ss \<le> balance ss')
   \<and> (is_double (balance sf) \<and> 0 \<le> portfolio sf
        \<and> (prices sf \<noteq> [] \<longrightarrow> 0 \<le> last (prices sf))
        \<and> timerFinish_dbl sf = Inr sf' \<longrightarrow> balance sf \<le> balance sf')
   \<and> balance (resetToHome s rnd) = 100"
proof (intro conjI impI)
  show "10 \<le> purchasePercent s" and "purchasePercent s \<le> 100" if "reachable s"
    using reachable_inv [OF that] by (simp_all add: state_inv_def)
  show "balance (resetToHome s rnd) = 100" by (simp add: resetToHome_def Let_def)
  show "balance ss \<le> balance ss'"
    if "\<not> buy_side_dbl es \<and> is_double (balance ss)
        \<and> (prices ss \<noteq> [] \<longrightarrow> 0 \<le> last (prices ss))
        \<and> handleClick_dbl ss es = Inr ss'"
    using that sell_keeps_cash [of es ss ss'] by blast
  show "balance sf \<le> balance sf'"
    if h: "is_double (balance sf) \<and> 0 \<le> portfolio sf
        \<and> (prices sf \<noteq> [] \<longrightarrow> 0 \<le> last (prices sf))
        \<and> timerFinish_dbl sf = Inr sf'"
  proof -
    have "balance sf' = balance sf
      \<or> (prices sf \<noteq> [] \<and> balance sf' = fl (balance sf + fl (portfolio sf * last (prices sf))))"
      using h by (intro timerFinish_dbl_balance) simp
    then show ?thesis
      using credit_keeps_cash [of "balance sf" "portfolio sf" "last (prices sf)"] h by auto
  qed
next
  assume h: "is_Running sb \<and> \<not> showSettings sb \<and> \<not> showShop sb \<and> buy_side_dbl eb
        \<and> 10 \<le> balance sb \<and> 10 \<le> purchasePercent sb \<and> purchasePercent sb \<le> 100
        \<and> 0 < last (prices sb) \<and> last (prices sb) < 2 ^ 1024
        \<and> handleClick_dbl sb eb = Inr sb'"
  then have g: "is_Running sb" "\<not> showSettings sb" "\<not> showShop sb" "buy_side_dbl eb"
    "10 \<le> balance sb" "10 \<le> purchasePercent sb" "purchasePercent sb \<le> 100"
    "0 < last (prices sb)" "last (prices sb) < 2 ^ 1024" "handleClick_dbl sb eb = Inr sb'"
    by simp_all
  show "balance sb' = fl (balance sb - buy_spent sb)"
    using handleClick_dbl_buy_inv [OF g(1-5,10)] by simp
  show "\<bar>buy_spent sb - balance sb * (purchasePercent sb / 100)\<bar>
               \<le> balance sb * (purchasePercent sb / 100) / 2 ^ 49"
    using g(5-9) by (rule buy_spent_abs)
  show "- (balance sb / 2 ^ 48) \<le> balance sb'"
    using g by (rule buy_cash_bounds(1))
  show "0 \<le> balance sb'" if "purchasePercent sb \<le> 90"
    using g that by (rule buy_cash_bounds(2))
qed

text \<open>
  Instances: the initial state; a buy of \<open>90\<close> percent at the price \<open>11\<close>, which leaves
  \<open>10\<close>; the sale and the end of the session after the buy of one half at the price \<open>100\<close>.
\<close>

theorem cash_bounds_dbl_witness:
  "reachable (initial_state mid_draws)
   \<and> 10 \<le> purchasePercent (initial_state mid_draws)
   \<and> purchasePercent (initial_state mid_draws) \<le> 100
   \<and> is_Running sc_ninety \<and> \<not> showSettings sc_ninety \<and> \<not> showShop sc_ninety \<and> buy_side_dbl right_click
   \<and> 10 \<le> balance sc_ninety \<and> purchasePercent sc_ninety = 90
   \<and> 0 < last (prices sc_ninety) \<and> last (prices sc_ninety) < 2 ^ 1024
   \<and> handleClick_dbl sc_ninety right_click = Inr sc_ninety_bought
   \<and> balance sc_ninety_bought = fl (balance sc_ninety - buy_spent sc_ninety)
   \<and> 0 \<le> balance sc_ninety_bought
   \<and> - (balance sc_ninety / 2 ^ 48) \<le> balance sc_ninety_bought
   \<and> \<not> buy_side_dbl left_click \<and> is_double (balance sc_100_bought) \<and> prices sc_100_bought \<noteq> []
   \<and> 0 \<le> last (prices sc_100_bought)
   \<and> handleClick_dbl sc_100_bought left_click = Inr sc_100_sold
   \<and> balance sc_100_bought \<le> balance sc_100_sold
   \<and> 0 \<le> portfolio sc_100_timed_out \<and> timerFinish_dbl sc_100_timed_out = Inr sc_100_finished
   \<and> balance sc_100_timed_out \<le> balance sc_100_finished
   \<and> balance (resetToHome (initial_state mid_draws) mid_draws) = 100"
proof -
  have g: "is_Running sc_ninety" "\<not> showSettings sc_ninety" "\<not> showShop sc_ninety"
    "10 \<le> balance sc_ninety" "purchasePercent sc_ninety = 90"
    "0 < last (prices sc_ninety)" "last (prices sc_ninety) < 2 ^ 1024"
    and d: "prices sc_100_bought \<noteq> []" "0 \<le> last (prices sc_100_bought)" "balance sc_100_bought = 50"
    and f: "prices sc_100_timed_out \<noteq> []" "0 \<le> last (prices sc_100_timed_out)" "balance sc_100_timed_out = 50" "0 \<le> portfolio sc_100_timed_out"
    by (simp_all add: trading_state_fields is_Running_def)
  have i: "is_double (50 :: real)"
    unfolding is_double_def by (rule conjI, rule fl_numeral) simp_all
  have r: "reachable (initial_state mid_draws)"
    by (rule r_initial) (rule mid_draws_random)
  note t1 = cash_bounds_dbl [of "initial_state mid_draws" "sc_ninety" right_click "sc_ninety_bought"
      left_click "sc_100_bought" "sc_100_sold" "sc_100_timed_out" "sc_100_finished" mid_draws]
  show ?thesis
    using t1 g d f i r click_sides_dbl ninety_buy_at_11 half_sell_at_100 finish_at_100
    by (simp del: fl_numeral)
qed

end
